theory Spec2Isabelle
  imports Complex_Main "HOL-Library.Word"
begin

section \<open>JavaScript strings\<close>

text \<open>
  A JavaScript string is modelled as a HOL \<open>string\<close>: a list of code units, each one a
  \<open>char\<close>, so the model covers the code units 0 to 255. Every pattern and every keyword
  of the source is ASCII, and the case conversions of the source are only ever compared
  with ASCII keywords, so the case conversions below change the ASCII letters and leave
  every other code unit alone.
\<close>

definition code :: "char \<Rightarrow> nat" where
  "code c = of_char c"

text \<open>White space as \<open>\s\<close> and \<open>trim\<close> see it: TAB, LF, VT, FF, CR, SP, NBSP.\<close>

definition is_ws :: "char \<Rightarrow> bool" where
  "is_ws c = (code c = 9 \<or> code c = 10 \<or> code c = 11 \<or> code c = 12 \<or> code c = 13
              \<or> code c = 32 \<or> code c = 160)"

definition is_digit :: "char \<Rightarrow> bool" where
  "is_digit c = (48 \<le> code c \<and> code c \<le> 57)"

definition is_upper :: "char \<Rightarrow> bool" where
  "is_upper c = (65 \<le> code c \<and> code c \<le> 90)"

definition is_lower :: "char \<Rightarrow> bool" where
  "is_lower c = (97 \<le> code c \<and> code c \<le> 122)"

definition is_alpha :: "char \<Rightarrow> bool" where
  "is_alpha c = (is_upper c \<or> is_lower c)"

definition is_word :: "char \<Rightarrow> bool" where
  "is_word c = (is_alpha c \<or> is_digit c \<or> code c = 95)"

definition upper_chr :: "char \<Rightarrow> char" where
  "upper_chr c = (if is_lower c then char_of (code c - 32) else c)"

definition lower_chr :: "char \<Rightarrow> char" where
  "lower_chr c = (if is_upper c then char_of (code c + 32) else c)"

definition toUpperCase :: "string \<Rightarrow> string" where
  "toUpperCase s = map upper_chr s"

definition toLowerCase :: "string \<Rightarrow> string" where
  "toLowerCase s = map lower_chr s"

definition startsWith :: "string \<Rightarrow> string \<Rightarrow> bool" where
  "startsWith s p = (take (length p) s = p)"

text \<open>\<open>s.includes(p)\<close>.\<close>

fun includes_str :: "string \<Rightarrow> string \<Rightarrow> bool" where
  "includes_str [] p = (p = [])"
| "includes_str (c # cs) p = (startsWith (c # cs) p \<or> includes_str cs p)"

text \<open>\<open>s.split(sep)\<close> for a one-character separator: never the empty list.\<close>

fun split_chr :: "char \<Rightarrow> string \<Rightarrow> string list" where
  "split_chr sep [] = [[]]"
| "split_chr sep (c # cs) =
     (if c = sep then [] # split_chr sep cs
      else (case split_chr sep cs of
              [] \<Rightarrow> [[c]]
            | p # ps \<Rightarrow> (c # p) # ps))"

text \<open>\<open>s.split(sep, limit)\<close> cuts the array after \<open>limit\<close> entries.\<close>

definition split_limit :: "char \<Rightarrow> nat \<Rightarrow> string \<Rightarrow> string list" where
  "split_limit sep limit s = take limit (split_chr sep s)"

definition trim :: "string \<Rightarrow> string" where
  "trim s = rev (dropWhile is_ws (rev (dropWhile is_ws s)))"

text \<open>Array indexing: an index past the end reads \<open>undefined\<close>, here \<open>None\<close>.\<close>

definition at_index :: "'a list \<Rightarrow> nat \<Rightarrow> 'a option" where
  "at_index xs i = (if i < length xs then Some (xs ! i) else None)"

section \<open>Regular expressions\<close>

text \<open>
  The regular expressions of the source are terms of \<open>regex\<close>, matched by a backtracking
  matcher that lists the ways a pattern can match at a position in the order in which
  the JavaScript matcher tries them (greedy quantifiers first, alternatives left to
  right). A matcher state is the text before the position, reversed, and the text from
  the position on.
\<close>

datatype citem = One char | Range char char | Digit | Space

datatype regex =
    Eps
  | Chr char
  | Cls "citem list"
  | NCls "citem list"
  | Seq regex regex
  | Alt regex regex
  | Star regex
  | Bol
  | Eol
  | WordB

type_synonym mstate = "string \<times> string"

definition in_range :: "char \<Rightarrow> char \<Rightarrow> char \<Rightarrow> bool" where
  "in_range lo hi c = (code lo \<le> code c \<and> code c \<le> code hi)"

text \<open>With the \<open>i\<close> flag a character matches when its upper-case or lower-case form does.\<close>

fun item_match :: "bool \<Rightarrow> char \<Rightarrow> citem \<Rightarrow> bool" where
  "item_match ic c (One d) = (if ic then upper_chr c = upper_chr d else c = d)"
| "item_match ic c (Range lo hi) =
     (if ic then in_range lo hi c \<or> in_range lo hi (upper_chr c) \<or> in_range lo hi (lower_chr c)
      else in_range lo hi c)"
| "item_match ic c Digit = is_digit c"
| "item_match ic c Space = is_ws c"

definition cls_match :: "bool \<Rightarrow> citem list \<Rightarrow> char \<Rightarrow> bool" where
  "cls_match ic items c = list_ex (item_match ic c) items"

definition at_boundary :: "string \<Rightarrow> string \<Rightarrow> bool" where
  "at_boundary b s =
     ((case b of [] \<Rightarrow> False | x # _ \<Rightarrow> is_word x) \<noteq> (case s of [] \<Rightarrow> False | y # _ \<Rightarrow> is_word y))"

fun rmatch :: "bool \<Rightarrow> regex \<Rightarrow> mstate \<Rightarrow> mstate list" where
  "rmatch ic Eps (b, s) = [(b, s)]"
| "rmatch ic (Chr c) (b, s) =
     (case s of [] \<Rightarrow> []
      | x # xs \<Rightarrow> if item_match ic x (One c) then [(x # b, xs)] else [])"
| "rmatch ic (Cls items) (b, s) =
     (case s of [] \<Rightarrow> []
      | x # xs \<Rightarrow> if cls_match ic items x then [(x # b, xs)] else [])"
| "rmatch ic (NCls items) (b, s) =
     (case s of [] \<Rightarrow> []
      | x # xs \<Rightarrow> if cls_match ic items x then [] else [(x # b, xs)])"
| "rmatch ic (Seq r1 r2) (b, s) = concat (map (rmatch ic r2) (rmatch ic r1 (b, s)))"
| "rmatch ic (Alt r1 r2) (b, s) = rmatch ic r1 (b, s) @ rmatch ic r2 (b, s)"
| "rmatch ic (Star r) (b, s) =
     concat (map (\<lambda>st. if length (snd st) < length s then rmatch ic (Star r) st else [])
                 (rmatch ic r (b, s))) @ [(b, s)]"
| "rmatch ic Bol (b, s) = (if b = [] then [(b, s)] else [])"
| "rmatch ic Eol (b, s) = (if s = [] then [(b, s)] else [])"
| "rmatch ic WordB (b, s) = (if at_boundary b s then [(b, s)] else [])"

text \<open>Derived forms: \<open>r?\<close>, \<open>r+\<close>, \<open>r{n}\<close>, \<open>r{n,}\<close>, \<open>r{n,m}\<close>, a literal word, \<open>(r1|...|rk)\<close>.\<close>

definition Opt :: "regex \<Rightarrow> regex" where
  "Opt r = Alt r Eps"

definition Plus :: "regex \<Rightarrow> regex" where
  "Plus r = Seq r (Star r)"

fun Rep :: "nat \<Rightarrow> regex \<Rightarrow> regex" where
  "Rep 0 r = Eps"
| "Rep (Suc n) r = Seq r (Rep n r)"

definition RepMin :: "nat \<Rightarrow> regex \<Rightarrow> regex" where
  "RepMin n r = Seq (Rep n r) (Star r)"

fun RepUpTo :: "nat \<Rightarrow> regex \<Rightarrow> regex" where
  "RepUpTo 0 r = Eps"
| "RepUpTo (Suc n) r = Opt (Seq r (RepUpTo n r))"

definition RepRange :: "nat \<Rightarrow> nat \<Rightarrow> regex \<Rightarrow> regex" where
  "RepRange n m r = Seq (Rep n r) (RepUpTo (m - n) r)"

fun Lit :: "string \<Rightarrow> regex" where
  "Lit [] = Eps"
| "Lit (c # cs) = Seq (Chr c) (Lit cs)"

fun Alts :: "regex list \<Rightarrow> regex" where
  "Alts [] = Cls []"
| "Alts [r] = r"
| "Alts (r # rs) = Alt r (Alts rs)"

fun Seqs :: "regex list \<Rightarrow> regex" where
  "Seqs [] = Eps"
| "Seqs [r] = r"
| "Seqs (r # rs) = Seq r (Seqs rs)"

text \<open>
  \<open>exec\<close>: the leftmost position at which the pattern matches, and there the first match
  in the matcher's order. The result is the text before the match (reversed), the
  matched text and the text after it.
\<close>

fun search_from :: "bool \<Rightarrow> regex \<Rightarrow> string \<Rightarrow> string \<Rightarrow> (string \<times> string \<times> string) option" where
  "search_from ic r b [] =
     (case rmatch ic r (b, []) of
        [] \<Rightarrow> None
      | st # _ \<Rightarrow> Some (b, [], []))"
| "search_from ic r b (c # cs) =
     (case rmatch ic r (b, c # cs) of
        [] \<Rightarrow> search_from ic r (c # b) cs
      | st # _ \<Rightarrow> Some (b, take (length (c # cs) - length (snd st)) (c # cs), snd st))"

definition regex_test :: "bool \<Rightarrow> regex \<Rightarrow> string \<Rightarrow> bool" where
  "regex_test ic r s = (search_from ic r [] s \<noteq> None)"

text \<open>\<open>s.match(r)\<close>, of which the source reads entry 0 only: the first match, with or
  without the \<open>g\<close> flag.\<close>

definition match_first :: "bool \<Rightarrow> regex \<Rightarrow> string \<Rightarrow> string option" where
  "match_first ic r s = map_option (\<lambda>(b, m, a). m) (search_from ic r [] s)"

section \<open>The content classifier \<open>parseQRContent\<close>\<close>

text \<open>
  \<open>ParsedQRData\<close>: the content type and the title are strings, \<open>details\<close> is an object
  whose properties are kept here in insertion order. A property holds a string or
  \<open>undefined\<close>.
\<close>

datatype jsval = Undefined | Str string

type_synonym details = "(string \<times> jsval) list"

record parsed =
  content_type :: string
  title :: string
  details :: details
  raw_data :: string

datatype js_error = TypeError | IndexSizeError | SyntaxError | PlainError

text \<open>\<open>String(error)\<close> of the catch branch.\<close>

definition error_text :: "js_error \<Rightarrow> string" where
  "error_text e =
     (case e of
        TypeError \<Rightarrow> ''TypeError''
      | IndexSizeError \<Rightarrow> ''IndexSizeError''
      | SyntaxError \<Rightarrow> ''SyntaxError''
      | PlainError \<Rightarrow> ''Error'')"

text \<open>\<open>obj.key = value\<close>: an existing property keeps its place.\<close>

fun set_prop :: "details \<Rightarrow> string \<Rightarrow> jsval \<Rightarrow> details" where
  "set_prop [] k v = [(k, v)]"
| "set_prop ((k', v') # d) k v = (if k' = k then (k, v) # d else (k', v') # set_prop d k v)"

definition of_undef :: "string option \<Rightarrow> jsval" where
  "of_undef x = (case x of None \<Rightarrow> Undefined | Some s \<Rightarrow> Str s)"

text \<open>
  One round of the loop of \<open>parseVCard\<close>. \<open>const [key, value] = trimmedLine.split(':', 2)\<close>
  reads entries 0 and 1; \<open>key.toUpperCase()\<close> throws a TypeError when \<open>key\<close> is
  \<open>undefined\<close>.
\<close>

definition vcard_line :: "string \<Rightarrow> details \<Rightarrow> js_error + details" where
  "vcard_line line d =
     (let trimmedLine = trim line in
      if includes_str trimmedLine '':'' then
        (let parts = split_limit CHR '':'' 2 trimmedLine;
             key = at_index parts 0;
             val = of_undef (at_index parts 1)
         in case key of
              None \<Rightarrow> Inl TypeError
            | Some k \<Rightarrow>
                (let upperKey = toUpperCase k
                 in Inr (if upperKey = ''FN'' then set_prop d ''name'' val
                         else if upperKey = ''ORG'' then set_prop d ''company'' val
                         else if upperKey = ''TITLE'' then set_prop d ''title'' val
                         else if upperKey = ''EMAIL'' then set_prop d ''email'' val
                         else if upperKey = ''TEL'' then set_prop d ''phone'' val
                         else if upperKey = ''URL'' then set_prop d ''website'' val
                         else if upperKey = ''ADR'' then set_prop d ''address'' val
                         else d)))
      else Inr d)"

fun vcard_lines :: "string list \<Rightarrow> details \<Rightarrow> js_error + details" where
  "vcard_lines [] d = Inr d"
| "vcard_lines (l # ls) d =
     (case vcard_line l d of
        Inl e \<Rightarrow> Inl e
      | Inr d' \<Rightarrow> vcard_lines ls d')"

definition parseVCard :: "string \<Rightarrow> js_error + details" where
  "parseVCard vcardData = vcard_lines (split_chr CHR ''\<newline>'' vcardData) []"

text \<open>\<open>parseWiFi\<close>: a comparison with an \<open>undefined\<close> key is false and throws nothing.\<close>

definition wifi_part :: "string \<Rightarrow> details \<Rightarrow> details" where
  "wifi_part part d =
     (if includes_str part '':'' then
        (let parts = split_limit CHR '':'' 2 part;
             key = at_index parts 0;
             val = of_undef (at_index parts 1)
         in if key = Some ''S'' then set_prop d ''ssid'' val
            else if key = Some ''P'' then set_prop d ''password'' val
            else if key = Some ''T'' then set_prop d ''security'' val
            else d)
      else d)"

definition parseWiFi :: "string \<Rightarrow> details" where
  "parseWiFi wifiData = fold wifi_part (split_chr CHR '';'' (drop 5 wifiData)) []"

definition parseSMS :: "string \<Rightarrow> details" where
  "parseSMS smsData =
     (let parts = split_chr CHR '':'' smsData in
      if includes_str smsData '':'' \<and> 3 \<le> length parts
      then [(''phone'', of_undef (at_index parts 1)), (''message'', of_undef (at_index parts 2))]
      else [(''raw'', Str smsData)])"

text \<open>The phone test \<open>/^\+?[\d\s\-\(\)]{10,}$/\<close>.\<close>

definition phone_items :: "citem list" where
  "phone_items = [Digit, Space, One CHR ''-'', One CHR ''('', One CHR '')'']"

definition phone_regex :: regex where
  "phone_regex = Seq Bol (Seq (Opt (Chr CHR ''+'')) (Seq (RepMin 10 (Cls phone_items)) Eol))"

definition socialPlatforms :: "string list" where
  "socialPlatforms = [''twitter.com'', ''facebook.com'', ''instagram.com'', ''youtube.com'']"

text \<open>A template literal prints \<open>undefined\<close> as the word.\<close>

definition template_text :: "string option \<Rightarrow> string" where
  "template_text x = (case x of None \<Rightarrow> ''undefined'' | Some s \<Rightarrow> s)"

definition parsed0 :: "string \<Rightarrow> parsed" where
  "parsed0 qrData = \<lparr>content_type = ''unknown'', title = [], details = [], raw_data = qrData\<rparr>"

text \<open>The body of the \<open>try\<close> block: \<open>Inl\<close> is an exception thrown inside it.\<close>

definition parseQRContent_body :: "string \<Rightarrow> js_error + parsed" where
  "parseQRContent_body qrData =
     (let parsed = parsed0 qrData in
      if startsWith qrData ''http://'' \<or> startsWith qrData ''https://'' \<or> startsWith qrData ''www.''
      then Inr (parsed\<lparr>content_type := ''url'', title := ''Website Link'',
                       details := [(''url'', Str qrData)]\<rparr>)
      else if includes_str qrData ''@'' \<and> includes_str qrData ''.''
      then Inr (parsed\<lparr>content_type := ''email'', title := ''Email Address'',
                       details := [(''email'', Str qrData)]\<rparr>)
      else if regex_test False phone_regex qrData
      then Inr (parsed\<lparr>content_type := ''phone'', title := ''Phone Number'',
                       details := [(''phone'', Str qrData)]\<rparr>)
      else if startsWith qrData ''BEGIN:VCARD''
      then (case parseVCard qrData of
              Inl e \<Rightarrow> Inl e
            | Inr d \<Rightarrow> Inr (parsed\<lparr>content_type := ''vcard'', title := ''Business Card'',
                                    details := d\<rparr>))
      else if startsWith qrData ''WIFI:''
      then Inr (parsed\<lparr>content_type := ''wifi'', title := ''WiFi Network'',
                       details := parseWiFi qrData\<rparr>)
      else if startsWith qrData ''sms:''
      then Inr (parsed\<lparr>content_type := ''sms'', title := ''SMS Message'',
                       details := parseSMS qrData\<rparr>)
      else if includes_str qrData ''linkedin.com''
      then Inr (parsed\<lparr>content_type := ''linkedin'', title := ''LinkedIn Profile'',
                       details := [(''url'', Str qrData), (''platform'', Str ''LinkedIn'')]\<rparr>)
      else (case find (\<lambda>p. includes_str qrData p) socialPlatforms of
              Some platform \<Rightarrow>
                (let label = at_index (split_chr CHR ''.'' platform) 0
                 in Inr (parsed\<lparr>content_type := ''social'',
                                title := template_text label @ '' Profile'',
                                details := [(''url'', Str qrData), (''platform'', of_undef label)]\<rparr>))
            | None \<Rightarrow>
                Inr (parsed\<lparr>content_type := ''text'', title := ''Text Content'',
                            details := [(''text'', Str qrData)]\<rparr>)))"

text \<open>The \<open>catch\<close> branch turns an exception of the body into the record of kind \<open>error\<close>.\<close>

definition parseQRContent :: "string \<Rightarrow> parsed" where
  "parseQRContent qrData =
     (case parseQRContent_body qrData of
        Inr p \<Rightarrow> p
      | Inl e \<Rightarrow> (parsed0 qrData)\<lparr>content_type := ''error'', title := ''Unknown Content'',
                                  details := [(''error'', Str (error_text e))]\<rparr>)"

section \<open>Images and the preprocessing transforms\<close>

text \<open>
  \<open>ImageData\<close>: a width, a height and a \<open>Uint8ClampedArray\<close> of RGBA bytes. The browser
  builds every \<open>ImageData\<close> with positive dimensions and \<open>4 * width * height\<close> bytes;
  \<open>wf_image\<close> says so.
\<close>

type_synonym byte = "8 word"

record image =
  width :: nat
  height :: nat
  data :: "byte list"

definition wf_image :: "image \<Rightarrow> bool" where
  "wf_image img = (0 < width img \<and> 0 < height img \<and> length (data img) = 4 * width img * height img)"

text \<open>\<open>new ImageData(w, h)\<close>: zero-filled; a zero dimension throws an IndexSizeError.\<close>

definition newImageData :: "nat \<Rightarrow> nat \<Rightarrow> js_error + image" where
  "newImageData w h =
     (if w = 0 \<or> h = 0 then Inl IndexSizeError
      else Inr \<lparr>width = w, height = h, data = replicate (4 * w * h) 0\<rparr>)"

text \<open>
  Reading a typed array past its end gives \<open>undefined\<close> (\<open>None\<close>), which arithmetic turns
  into NaN; writing past the end does nothing, as \<open>xs[i := v]\<close> does. Storing NaN or
  \<open>undefined\<close> stores 0.
\<close>

definition rd :: "byte list \<Rightarrow> nat \<Rightarrow> byte option" where
  "rd xs i = (if i < length xs then Some (xs ! i) else None)"

definition store_undef :: "byte option \<Rightarrow> byte" where
  "store_undef x = (case x of None \<Rightarrow> 0 | Some v \<Rightarrow> v)"

text \<open>A store into a \<open>Uint8ClampedArray\<close> clamps to 0..255 and rounds to the nearest
  integer, a tie to the even one.\<close>

definition toUint8Clamp :: "rat \<Rightarrow> byte" where
  "toUint8Clamp x =
     (if x \<le> 0 then 0
      else if 255 \<le> x then 255
      else (let f = \<lfloor>x\<rfloor> in
            if of_int f + 1 / 2 < x then of_int (f + 1)
            else if x < of_int f + 1 / 2 then of_int f
            else if even f then of_int f else of_int (f + 1)))"

definition write4 :: "byte list \<Rightarrow> nat \<Rightarrow> byte \<Rightarrow> byte \<Rightarrow> byte \<Rightarrow> byte \<Rightarrow> byte list" where
  "write4 d i r g b a = d[i := r, i + 1 := g, i + 2 := b, i + 3 := a]"

text \<open>The indices of \<open>for (let i = 0; i < n; i += 4)\<close>.\<close>

definition offsets :: "nat \<Rightarrow> nat list" where
  "offsets n = map (\<lambda>k. 4 * k) [0..<(n + 3) div 4]"

text \<open>
  \<open>Math.min(255, Math.max(0, (v - 128) * factor + 128))\<close> with \<open>factor = 1.5\<close>, stored into
  the clamped array. The doubles involved are multiples of one half below 512, so the
  arithmetic is exact.
\<close>

definition contrast_value :: "byte \<Rightarrow> rat" where
  "contrast_value v = min 255 (max 0 ((of_nat (unat v) - 128) * (3 / 2) + 128))"

definition contrast_channel :: "byte option \<Rightarrow> byte" where
  "contrast_channel x = (case x of None \<Rightarrow> 0 | Some v \<Rightarrow> toUint8Clamp (contrast_value v))"

definition contrast_step :: "byte list \<Rightarrow> nat \<Rightarrow> byte list \<Rightarrow> byte list" where
  "contrast_step orig i d =
     write4 d i (contrast_channel (rd orig i)) (contrast_channel (rd orig (i + 1)))
                (contrast_channel (rd orig (i + 2))) (store_undef (rd orig (i + 3)))"

definition increaseContrast :: "image \<Rightarrow> js_error + image" where
  "increaseContrast imageData =
     (case newImageData (width imageData) (height imageData) of
        Inl e \<Rightarrow> Inl e
      | Inr newData \<Rightarrow>
          Inr (newData\<lparr>data :=
                 fold (contrast_step (data imageData)) (offsets (length (data imageData)))
                      (data newData)\<rparr>))"

text \<open>
  \<open>Math.round(0.299 * r + 0.587 * g + 0.114 * b)\<close> is computed in double-precision
  floating point. The transforms take that function of three byte values as the
  parameter \<open>lum\<close>, and what is proved of the transforms is proved for every \<open>lum\<close>.
  \<open>luminance_exact\<close> is the value in exact arithmetic; the double computation can miss
  it by one where the exact sum is a tie (at 5, 17, 9 the exact sum is 12.5). It is used
  for sample runs only, on grey pixels, where the sum is the grey value itself. A pixel
  with an \<open>undefined\<close> channel has the grey value NaN (\<open>None\<close>).
\<close>

definition luminance_exact :: "nat \<Rightarrow> nat \<Rightarrow> nat \<Rightarrow> nat" where
  "luminance_exact r g b = (299 * r + 587 * g + 114 * b + 500) div 1000"

definition gray_at :: "(nat \<Rightarrow> nat \<Rightarrow> nat \<Rightarrow> nat) \<Rightarrow> byte list \<Rightarrow> nat \<Rightarrow> nat option" where
  "gray_at lum orig i =
     (case (rd orig i, rd orig (i + 1), rd orig (i + 2)) of
        (Some r, Some g, Some b) \<Rightarrow> Some (lum (unat r) (unat g) (unat b))
      | _ \<Rightarrow> None)"

definition store_nat :: "nat option \<Rightarrow> byte" where
  "store_nat x = (case x of None \<Rightarrow> 0 | Some n \<Rightarrow> of_nat (min 255 n))"

definition grayscale_step :: "(nat \<Rightarrow> nat \<Rightarrow> nat \<Rightarrow> nat) \<Rightarrow> byte list \<Rightarrow> nat \<Rightarrow> byte list \<Rightarrow> byte list" where
  "grayscale_step lum orig i d =
     (let gray = store_nat (gray_at lum orig i)
      in write4 d i gray gray gray (store_undef (rd orig (i + 3))))"

definition convertToGrayscale :: "(nat \<Rightarrow> nat \<Rightarrow> nat \<Rightarrow> nat) \<Rightarrow> image \<Rightarrow> js_error + image" where
  "convertToGrayscale lum imageData =
     (case newImageData (width imageData) (height imageData) of
        Inl e \<Rightarrow> Inl e
      | Inr newData \<Rightarrow>
          Inr (newData\<lparr>data :=
                 fold (grayscale_step lum (data imageData)) (offsets (length (data imageData)))
                      (data newData)\<rparr>))"

text \<open>
  \<open>applyThreshold\<close>. \<open>histogram[gray]++\<close> changes one of the 256 counters when \<open>gray\<close> is
  one of 0..255 and none of them otherwise. The threshold is \<open>Math.round(sum / total)\<close>,
  NaN when \<open>total\<close> is 0; the quotient of the two integers is away from a tie by at
  least \<open>1 / (2 * total)\<close>, far more than the rounding error of the double division, so
  the rounding is the exact one.
\<close>

definition histogram_step :: "(nat \<Rightarrow> nat \<Rightarrow> nat \<Rightarrow> nat) \<Rightarrow> byte list \<Rightarrow> nat \<Rightarrow> nat list \<Rightarrow> nat list" where
  "histogram_step lum orig i h =
     (case gray_at lum orig i of
        None \<Rightarrow> h
      | Some g \<Rightarrow> if g < length h then h[g := h ! g + 1] else h)"

definition mean_threshold :: "nat list \<Rightarrow> nat option" where
  "mean_threshold histogram =
     (let sum = (\<Sum>i\<leftarrow>[0..<256]. i * histogram ! i);
          total = (\<Sum>i\<leftarrow>[0..<256]. histogram ! i)
      in if total = 0 then None else Some ((2 * sum + total) div (2 * total)))"

definition threshold_value :: "nat option \<Rightarrow> nat option \<Rightarrow> byte" where
  "threshold_value gray threshold =
     (case (gray, threshold) of
        (Some g, Some t) \<Rightarrow> if t < g then 255 else 0
      | _ \<Rightarrow> 0)"

definition threshold_step :: "(nat \<Rightarrow> nat \<Rightarrow> nat \<Rightarrow> nat) \<Rightarrow> nat option \<Rightarrow> byte list \<Rightarrow> nat \<Rightarrow> byte list \<Rightarrow> byte list" where
  "threshold_step lum threshold orig i d =
     (let v = threshold_value (gray_at lum orig i) threshold
      in write4 d i v v v (store_undef (rd orig (i + 3))))"

definition applyThreshold :: "(nat \<Rightarrow> nat \<Rightarrow> nat \<Rightarrow> nat) \<Rightarrow> image \<Rightarrow> js_error + image" where
  "applyThreshold lum imageData =
     (case newImageData (width imageData) (height imageData) of
        Inl e \<Rightarrow> Inl e
      | Inr newData \<Rightarrow>
          (let originalData = data imageData;
               histogram = fold (histogram_step lum originalData) (offsets (length originalData))
                                (replicate 256 0);
               threshold = mean_threshold histogram
           in Inr (newData\<lparr>data :=
                     fold (threshold_step lum threshold originalData) (offsets (length originalData))
                          (data newData)\<rparr>)))"

text \<open>
  \<open>resizeImage\<close>, nearest neighbour. \<open>Math.round(x)\<close> is \<open>\<lfloor>x + 1/2\<rfloor>\<close>. The source calls it
  with the scale 0.5 only, for which the double arithmetic is exact.
\<close>

definition math_round :: "rat \<Rightarrow> nat" where
  "math_round x = nat \<lfloor>x + 1 / 2\<rfloor>"

definition resize_step :: "image \<Rightarrow> rat \<Rightarrow> nat \<Rightarrow> nat \<times> nat \<Rightarrow> byte list \<Rightarrow> byte list" where
  "resize_step imageData scale newWidth yx d =
     (let y = fst yx; x = snd yx;
          sourceX = nat \<lfloor>of_nat x / scale\<rfloor>;
          sourceY = nat \<lfloor>of_nat y / scale\<rfloor>;
          sourceIndex = (sourceY * width imageData + sourceX) * 4;
          targetIndex = (y * newWidth + x) * 4;
          src = data imageData
      in write4 d targetIndex (store_undef (rd src sourceIndex)) (store_undef (rd src (sourceIndex + 1)))
                (store_undef (rd src (sourceIndex + 2))) (store_undef (rd src (sourceIndex + 3))))"

definition resizeImage :: "image \<Rightarrow> rat \<Rightarrow> js_error + image" where
  "resizeImage imageData scale =
     (let newWidth = math_round (of_nat (width imageData) * scale);
          newHeight = math_round (of_nat (height imageData) * scale)
      in case newImageData newWidth newHeight of
           Inl e \<Rightarrow> Inl e
         | Inr newData \<Rightarrow>
             Inr (newData\<lparr>data :=
                    fold (resize_step imageData scale newWidth)
                         (List.product [0..<newHeight] [0..<newWidth]) (data newData)\<rparr>))"

text \<open>\<open>preprocessImage\<close>: the four renderings in their fixed order; an exception in any
  of them is caught and gives no rendering at all.\<close>

definition preprocessImage :: "(nat \<Rightarrow> nat \<Rightarrow> nat \<Rightarrow> nat) \<Rightarrow> image \<Rightarrow> image list" where
  "preprocessImage lum imageData =
     (case increaseContrast imageData of
        Inl e \<Rightarrow> []
      | Inr contrastImage \<Rightarrow>
     (case convertToGrayscale lum imageData of
        Inl e \<Rightarrow> []
      | Inr grayscaleImage \<Rightarrow>
     (case increaseContrast grayscaleImage of
        Inl e \<Rightarrow> []
      | Inr grayscaleContrast \<Rightarrow>
     (case applyThreshold lum imageData of
        Inl e \<Rightarrow> []
      | Inr thresholdImage \<Rightarrow>
     (case resizeImage imageData (1 / 2) of
        Inl e \<Rightarrow> []
      | Inr resizedImage \<Rightarrow>
          [contrastImage, grayscaleContrast, thresholdImage, resizedImage])))))"

section \<open>The detection cascade \<open>detectQRCodes\<close>\<close>

text \<open>\<open>QRCodeResult\<close>; the fields are \<open>data\<close>, \<open>type\<close>, \<open>location\<close> and \<open>method\<close> of the source.\<close>

type_synonym point = "int \<times> int"

record qr_result =
  qdata :: string
  qtype :: string
  qlocation :: "(point \<times> point \<times> point \<times> point) option"
  qmethod :: string

text \<open>\<open>removeDuplicates\<close>: a filter that threads the set of the data strings seen so far.\<close>

fun removeDuplicates_from :: "string set \<Rightarrow> qr_result list \<Rightarrow> qr_result list" where
  "removeDuplicates_from seen [] = []"
| "removeDuplicates_from seen (r # rs) =
     (if qdata r \<in> seen then removeDuplicates_from seen rs
      else r # removeDuplicates_from (insert (qdata r) seen) rs)"

definition removeDuplicates :: "qr_result list \<Rightarrow> qr_result list" where
  "removeDuplicates results = removeDuplicates_from {} results"

text \<open>
  The two decoders are parameters of the cascade. \<open>jsQR\<close> stands for \<open>detectWithJSQR\<close>,
  which returns a result or \<open>null\<close>; \<open>goQR\<close> stands for \<open>detectWithGoQRAPI\<close>, awaited inside
  a \<open>try\<close> block, so an exception of it is a value \<open>Inl\<close>. Each invocation of a decoder
  is recorded as an event, in the order in which the invocations happen.
\<close>

datatype event = Local image | Remote image

type_synonym local_decoder = "image \<Rightarrow> qr_result option"
type_synonym remote_decoder = "image \<Rightarrow> js_error + qr_result list"

text \<open>\<open>goQRResults.length > 0\<close> inside \<open>try\<close>; the \<open>catch\<close> only logs.\<close>

definition remote_found :: "remote_decoder \<Rightarrow> image \<Rightarrow> qr_result list" where
  "remote_found goQR img = (case goQR img of Inl e \<Rightarrow> [] | Inr rs \<Rightarrow> rs)"

text \<open>The loop over the preprocessed images: the results pushed and the events.\<close>

fun preprocessed_loop :: "local_decoder \<Rightarrow> remote_decoder \<Rightarrow> image list \<Rightarrow> qr_result list \<times> event list" where
  "preprocessed_loop jsQR goQR [] = ([], [])"
| "preprocessed_loop jsQR goQR (p # ps) =
     (case jsQR p of
        Some processedResult \<Rightarrow> ([processedResult], [Local p])
      | None \<Rightarrow>
          (let goQRResults = remote_found goQR p in
           if goQRResults \<noteq> [] then (goQRResults, [Local p, Remote p])
           else (let (results, events) = preprocessed_loop jsQR goQR ps
                 in (results, Local p # Remote p # events))))"

text \<open>
  \<open>detectQRCodes\<close> after the libraries have loaded. \<open>detectWithZXing\<close> returns the empty
  array on each of its paths and invokes no decoder.
\<close>

definition detectWithZXing :: "image \<Rightarrow> qr_result list" where
  "detectWithZXing imageData = []"

definition detectQRCodes ::
  "local_decoder \<Rightarrow> remote_decoder \<Rightarrow> (nat \<Rightarrow> nat \<Rightarrow> nat \<Rightarrow> nat) \<Rightarrow> image \<Rightarrow> qr_result list \<times> event list" where
  "detectQRCodes jsQR goQR lum imageData =
     (let results0 = (case jsQR imageData of None \<Rightarrow> [] | Some jsQRResult \<Rightarrow> [jsQRResult]);
          events0 = [Local imageData];
          (results1, events1) =
             (if results0 = [] then
                (let (rs, es) = preprocessed_loop jsQR goQR (preprocessImage lum imageData)
                 in (results0 @ rs, events0 @ es))
              else (results0, events0))
      in if results1 = [] then
           (let goQRResults = remote_found goQR imageData;
                events2 = events1 @ [Remote imageData]
            in if goQRResults \<noteq> [] then (results1 @ goQRResults, events2)
               else (removeDuplicates (results1 @ detectWithZXing imageData), events2))
         else (removeDuplicates (results1 @ detectWithZXing imageData), events1))"

section \<open>The remote decoder wrapper \<open>detectWithGoQRAPI\<close>\<close>

text \<open>
  What the wrapper meets: no canvas context; a canvas that yields no blob, whose promise
  then never settles; or the \<open>fetch\<close>. The source gives the \<open>fetch\<close> no timeout and no
  abort signal, so the request stays unanswered for ever, or is rejected (network
  failure, or the browser giving up), or is answered with a status and a body. The body
  is its JSON value, or \<open>None\<close> when \<open>response.json()\<close> rejects.
\<close>

datatype json =
    JNull
  | JBool bool
  | JNum rat
  | JStr string
  | JArr "json list"
  | JObj "(string \<times> json) list"

datatype fetch_outcome = Unanswered | Rejected | Responded nat "json option"

datatype goqr_env = NoContext | NoBlob | Fetched fetch_outcome

datatype 'a completion = Normal 'a | Throw js_error | NeverSettles

text \<open>The entries of the returned array: \<open>qr.data\<close>, \<open>qr.type\<close>, \<open>qr.rect\<close>, \<open>qr.method\<close>,
  each a JSON value or \<open>undefined\<close>.\<close>

record api_result =
  a_data :: "json option"
  a_type :: "json option"
  a_location :: "json option"
  a_method :: "json option"

definition response_ok :: "nat \<Rightarrow> bool" where
  "response_ok status = (200 \<le> status \<and> status \<le> 299)"

text \<open>\<open>v.key\<close>: a TypeError on \<open>null\<close>, \<open>undefined\<close> where there is no such property.\<close>

fun get_prop :: "json \<Rightarrow> string \<Rightarrow> js_error + json option" where
  "get_prop JNull k = Inl TypeError"
| "get_prop (JObj kvs) k = Inr (map_of kvs k)"
| "get_prop (JArr xs) k = Inr (if k = ''length'' then Some (JNum (of_nat (length xs))) else None)"
| "get_prop (JStr s) k = Inr (if k = ''length'' then Some (JNum (of_nat (length s))) else None)"
| "get_prop (JBool b) k = Inr None"
| "get_prop (JNum n) k = Inr None"

fun truthy :: "json option \<Rightarrow> bool" where
  "truthy None = False"
| "truthy (Some JNull) = False"
| "truthy (Some (JBool b)) = b"
| "truthy (Some (JNum n)) = (n \<noteq> 0)"
| "truthy (Some (JStr s)) = (s \<noteq> [])"
| "truthy (Some (JArr xs)) = True"
| "truthy (Some (JObj kvs)) = True"

text \<open>
  \<open>x > 0\<close>: decided here for a number and for \<open>undefined\<close>; for any other value the
  coercion of JavaScript is the parameter \<open>gt0\<close>.
\<close>

definition greater_zero :: "(json \<Rightarrow> bool) \<Rightarrow> json option \<Rightarrow> bool" where
  "greater_zero gt0 x =
     (case x of
        None \<Rightarrow> False
      | Some (JNum n) \<Rightarrow> 0 < n
      | Some v \<Rightarrow> gt0 v)"

definition qr_entry :: "json \<Rightarrow> js_error + api_result" where
  "qr_entry qr =
     (case get_prop qr ''data'' of Inl e \<Rightarrow> Inl e | Inr d \<Rightarrow>
      case get_prop qr ''type'' of Inl e \<Rightarrow> Inl e | Inr t \<Rightarrow>
      case get_prop qr ''rect'' of Inl e \<Rightarrow> Inl e | Inr r \<Rightarrow>
      case get_prop qr ''method'' of Inl e \<Rightarrow> Inl e | Inr m \<Rightarrow>
        Inr \<lparr>a_data = d, a_type = t, a_location = r, a_method = m\<rparr>)"

fun map_entries :: "json list \<Rightarrow> js_error + api_result list" where
  "map_entries [] = Inr []"
| "map_entries (qr # qrs) =
     (case qr_entry qr of
        Inl e \<Rightarrow> Inl e
      | Inr x \<Rightarrow> (case map_entries qrs of Inl e \<Rightarrow> Inl e | Inr xs \<Rightarrow> Inr (x # xs)))"

text \<open>\<open>result.qr_codes.map(...)\<close>: only an array has the method; calling \<open>undefined\<close> or a
  JSON value is a TypeError.\<close>

definition call_map :: "json \<Rightarrow> js_error + api_result list" where
  "call_map q = (case q of JArr xs \<Rightarrow> map_entries xs | _ \<Rightarrow> Inl TypeError)"

text \<open>The part of the \<open>try\<close> block after \<open>await response.json()\<close>.\<close>

definition parse_response :: "(json \<Rightarrow> bool) \<Rightarrow> json \<Rightarrow> js_error + api_result list" where
  "parse_response gt0 result =
     (case get_prop result ''success'' of Inl e \<Rightarrow> Inl e | Inr success \<Rightarrow>
      if \<not> truthy success then Inr []
      else (case get_prop result ''qr_codes'' of Inl e \<Rightarrow> Inl e | Inr qr_codes \<Rightarrow>
      if \<not> truthy qr_codes then Inr []
      else (case qr_codes of None \<Rightarrow> Inr [] | Some q \<Rightarrow>
      (case get_prop q ''length'' of Inl e \<Rightarrow> Inl e | Inr len \<Rightarrow>
      if greater_zero gt0 len then call_map q else Inr []))))"

definition goqr_try :: "(json \<Rightarrow> bool) \<Rightarrow> goqr_env \<Rightarrow> api_result list completion" where
  "goqr_try gt0 env =
     (case env of
        NoContext \<Rightarrow> Normal []
      | NoBlob \<Rightarrow> NeverSettles
      | Fetched Unanswered \<Rightarrow> NeverSettles
      | Fetched Rejected \<Rightarrow> Throw TypeError
      | Fetched (Responded status body) \<Rightarrow>
          if \<not> response_ok status then Throw PlainError
          else (case body of
                  None \<Rightarrow> Throw SyntaxError
                | Some result \<Rightarrow>
                    (case parse_response gt0 result of
                       Inl e \<Rightarrow> Throw e
                     | Inr rs \<Rightarrow> Normal rs)))"

text \<open>\<open>catch (error) { ...; return []; }\<close>\<close>

definition detectWithGoQRAPI :: "(json \<Rightarrow> bool) \<Rightarrow> goqr_env \<Rightarrow> api_result list completion" where
  "detectWithGoQRAPI gt0 env =
     (case goqr_try gt0 env of
        Throw e \<Rightarrow> Normal []
      | c \<Rightarrow> c)"

section \<open>The field extractor \<open>extractTextInfoEnhanced\<close>\<close>

text \<open>
  \<open>s.replace(r, rep)\<close> with the \<open>g\<close> flag: every match, from left to right, each search
  starting where the last match ended (one character further after an empty match).
\<close>

function replace_from :: "bool \<Rightarrow> regex \<Rightarrow> string \<Rightarrow> string \<Rightarrow> string \<Rightarrow> string" where
  "replace_from ic r rep b [] = (case rmatch ic r (b, []) of [] \<Rightarrow> [] | st # _ \<Rightarrow> rep)"
| "replace_from ic r rep b (c # cs) =
     (case rmatch ic r (b, c # cs) of
        [] \<Rightarrow> c # replace_from ic r rep (c # b) cs
      | st # _ \<Rightarrow>
          if length (snd st) < length (c # cs)
          then rep @ replace_from ic r rep (fst st) (snd st)
          else rep @ c # replace_from ic r rep (c # b) cs)"
  by pat_completeness auto
termination
  by (relation "measure (\<lambda>(ic, r, rep, b, s). length s)") auto

definition replace_all :: "bool \<Rightarrow> regex \<Rightarrow> string \<Rightarrow> string \<Rightarrow> string" where
  "replace_all ic r rep s = replace_from ic r rep [] s"

text \<open>\<open>s.replace(r, rep)\<close> without the \<open>g\<close> flag: the first match only.\<close>

definition replace_first :: "bool \<Rightarrow> regex \<Rightarrow> string \<Rightarrow> string \<Rightarrow> string" where
  "replace_first ic r rep s =
     (case search_from ic r [] s of
        None \<Rightarrow> s
      | Some (b, m, a) \<Rightarrow> rev b @ rep @ a)"

record info =
  name :: string
  title_i :: string
  company :: string
  phone :: string
  email :: string
  website :: string
  address :: string
  otherInfo :: "string list"

definition info0 :: info where
  "info0 = \<lparr>name = [], title_i = [], company = [], phone = [], email = [], website = [],
            address = [], otherInfo = []\<rparr>"

text \<open>The character classes of the patterns.\<close>

definition ws_run :: regex where
  "ws_run = Plus (Cls [Space])"

definition upper_c :: regex where
  "upper_c = Cls [Range CHR ''A'' CHR ''Z'']"

definition lower_c :: regex where
  "lower_c = Cls [Range CHR ''a'' CHR ''z'']"

definition digit_c :: regex where
  "digit_c = Cls [Digit]"

definition sep_c :: regex where
  "sep_c = Cls [Space, One CHR ''-'']"

text \<open>\<open>text.replace(/\s+/g, ' ').trim()\<close>\<close>

definition cleanedText :: "string \<Rightarrow> string" where
  "cleanedText text = trim (replace_all False ws_run '' '' text)"

text \<open>\<open>/[a-zA-Z0-9._%+-]+@[a-zA-Z0-9.-]+\.[a-zA-Z]{2,}/\<close>\<close>

definition emailPattern :: regex where
  "emailPattern =
     Seqs [Plus (Cls [Range CHR ''a'' CHR ''z'', Range CHR ''A'' CHR ''Z'', Range CHR ''0'' CHR ''9'',
                      One CHR ''.'', One CHR ''_'', One CHR ''%'', One CHR ''+'', One CHR ''-'']),
           Chr CHR ''@'',
           Plus (Cls [Range CHR ''a'' CHR ''z'', Range CHR ''A'' CHR ''Z'', Range CHR ''0'' CHR ''9'',
                      One CHR ''.'', One CHR ''-'']),
           Chr CHR ''.'',
           RepMin 2 (Cls [Range CHR ''a'' CHR ''z'', Range CHR ''A'' CHR ''Z''])]"

text \<open>
  The four phone patterns, each with its \<open>i\<close> flag:
  \<open>/(\+?91[\s\-]?[6-9]\d{9})/g\<close>, \<open>/(M\s*\+?91[\s\-]?[6-9]\d{9})/g\<close>,
  \<open>/(Tel[:\s]*\+?91[\s\-]?\d{2,3}[\s\-]?\d{7,8})/gi\<close>, \<open>/(\+?91[\s\-]?\d{2,3}[\s\-]?\d{7,8})/g\<close>.
\<close>

definition mobile_tail :: "regex list" where
  "mobile_tail = [Opt (Chr CHR ''+''), Lit ''91'', Opt sep_c, Cls [Range CHR ''6'' CHR ''9''], Rep 9 digit_c]"

definition landline_tail :: "regex list" where
  "landline_tail = [Opt (Chr CHR ''+''), Lit ''91'', Opt sep_c, RepRange 2 3 digit_c, Opt sep_c,
                    RepRange 7 8 digit_c]"

definition phonePatterns :: "(bool \<times> regex) list" where
  "phonePatterns =
     [(False, Seqs mobile_tail),
      (False, Seqs ([Chr CHR ''M'', Star (Cls [Space])] @ mobile_tail)),
      (True, Seqs ([Lit ''Tel'', Star (Cls [One CHR '':'', Space])] @ landline_tail)),
      (False, Seqs landline_tail)]"

text \<open>\<open>/^(Tel[:\s]*|M\s*)/i\<close>\<close>

definition phone_label :: regex where
  "phone_label =
     Seq Bol (Alt (Seq (Lit ''Tel'') (Star (Cls [One CHR '':'', Space])))
                  (Seq (Chr CHR ''M'') (Star (Cls [Space]))))"

definition clean_phone :: "string \<Rightarrow> string" where
  "clean_phone m = replace_all False ws_run [] (replace_first True phone_label [] (trim m))"

fun phone_loop :: "(bool \<times> regex) list \<Rightarrow> string \<Rightarrow> string" where
  "phone_loop [] cleaned = []"
| "phone_loop ((ic, pattern) # rest) cleaned =
     (case match_first ic pattern cleaned of
        None \<Rightarrow> phone_loop rest cleaned
      | Some m \<Rightarrow>
          (let phone = clean_phone m
           in if 10 \<le> length phone then phone else phone_loop rest cleaned))"

text \<open>\<open>/(https?:\/\/[^\s]+|www\.[^\s]+)/i\<close>\<close>

definition websitePattern :: regex where
  "websitePattern =
     Alt (Seqs [Lit ''http'', Opt (Chr CHR ''s''), Lit ''://'', Plus (NCls [Space])])
         (Seqs [Lit ''www.'', Plus (NCls [Space])])"

text \<open>
  The two name patterns, both anchored at the beginning of the cleaned text:
  \<open>/^([A-Z][a-z]+\s+[A-Z][a-z]+(?:\s+[A-Z][a-z]+)?)/\<close> and \<open>/^([A-Z][a-z]+\s+[A-Z])/\<close>.
  The group is the whole match.
\<close>

definition cap_word :: "regex list" where
  "cap_word = [upper_c, Plus lower_c]"

definition namePatterns :: "regex list" where
  "namePatterns =
     [Seqs ([Bol] @ cap_word @ [ws_run] @ cap_word @ [Opt (Seqs ([ws_run] @ cap_word))]),
      Seqs ([Bol] @ cap_word @ [ws_run, upper_c])]"

definition name_keywords :: "string list" where
  "name_keywords = [''ltd'', ''inc'', ''corp'', ''analyst'', ''manager'']"

definition valid_name :: "string \<Rightarrow> bool" where
  "valid_name potentialName =
     (\<not> list_ex (\<lambda>k. includes_str (toLowerCase potentialName) k) name_keywords
      \<and> length potentialName < 50)"

fun name_loop :: "regex list \<Rightarrow> string \<Rightarrow> string" where
  "name_loop [] cleaned = []"
| "name_loop (pattern # rest) cleaned =
     (case match_first False pattern cleaned of
        None \<Rightarrow> name_loop rest cleaned
      | Some m \<Rightarrow>
          (let potentialName = trim m
           in if valid_name potentialName then potentialName else name_loop rest cleaned))"

text \<open>The title pattern, flags \<open>gi\<close>: the listed phrases, the words of a phrase separated
  by \<open>\s+\<close>.\<close>

definition phrase :: "string \<Rightarrow> string \<Rightarrow> regex" where
  "phrase w1 w2 = Seqs [Lit w1, ws_run, Lit w2]"

definition titlePattern :: regex where
  "titlePattern =
     Alts ([phrase ''Systems'' ''Analyst'', phrase ''Project'' ''Manager'',
            phrase ''Software'' ''Engineer'', phrase ''Senior'' ''Developer'',
            phrase ''Team'' ''Lead''] @
           map Lit [''Director'', ''Manager'', ''Analyst'', ''Engineer'', ''Developer'',
                    ''Consultant'', ''Specialist'', ''Executive'', ''President'', ''CEO'', ''CTO'',
                    ''VP'', ''Designer'', ''Coordinator'', ''Assistant''])"

text \<open>A loop that takes the first pattern with a match and keeps the trimmed match.\<close>

fun first_match_loop :: "regex list \<Rightarrow> string \<Rightarrow> string" where
  "first_match_loop [] cleaned = []"
| "first_match_loop (pattern # rest) cleaned =
     (case match_first True pattern cleaned of
        None \<Rightarrow> first_match_loop rest cleaned
      | Some m \<Rightarrow> trim m)"

text \<open>The company patterns, flags \<open>gi\<close>:
  \<open>/([A-Z][a-zA-Z\s&]+(?:Ltd|Inc|...|Pvt))/gi\<close> and \<open>/(Satyam\s+Computer\s+Services\s+Ltd)/gi\<close>.\<close>

definition companyPatterns :: "regex list" where
  "companyPatterns =
     [Seqs [upper_c,
            Plus (Cls [Range CHR ''a'' CHR ''z'', Range CHR ''A'' CHR ''Z'', Space, One CHR ''&'']),
            Alts (map Lit [''Ltd'', ''Inc'', ''Corp'', ''Company'', ''Services'', ''Technologies'',
                           ''Solutions'', ''Systems'', ''Computer'', ''Software'', ''Tech'', ''Group'',
                           ''Holdings'', ''Enterprises'', ''Private'', ''Pvt''])],
      Seqs [Lit ''Satyam'', ws_run, Lit ''Computer'', ws_run, Lit ''Services'', ws_run, Lit ''Ltd'']]"

text \<open>The address patterns, flags \<open>gi\<close>:
  \<open>/([A-Za-z\s]+(?:Towers?|Building|...|Country))/gi\<close>, \<open>/(Ohri\s+Towers?[^,]*)/gi\<close>,
  \<open>/(Sebastian\s+Road[^,]*)/gi\<close>.\<close>

definition addressPatterns :: "regex list" where
  "addressPatterns =
     [Seqs [Plus (Cls [Range CHR ''A'' CHR ''Z'', Range CHR ''a'' CHR ''z'', Space]),
            Alts ([Seq (Lit ''Tower'') (Opt (Chr CHR ''s''))] @
                  map Lit [''Building'', ''Complex'', ''Road'', ''Street'', ''Avenue'', ''Lane'',
                           ''Colony'', ''Nagar'', ''Area'', ''Village'', ''Town'', ''City'', ''State'',
                           ''Country''])],
      Seqs [Lit ''Ohri'', ws_run, Lit ''Tower'', Opt (Chr CHR ''s''), Star (NCls [One CHR '',''])],
      Seqs [Lit ''Sebastian'', ws_run, Lit ''Road'', Star (NCls [One CHR '',''])]]"

text \<open>\<open>/\d{2,3}[\s\-]?\d{7,8}/\<close>, the digit run that the address is cleaned of.\<close>

definition phone_run :: regex where
  "phone_run = Seqs [RepRange 2 3 digit_c, Opt sep_c, RepRange 7 8 digit_c]"

definition clean_address :: "string \<Rightarrow> string" where
  "clean_address m = trim (replace_all False ws_run '' '' (replace_all False phone_run [] (trim m)))"

fun address_loop :: "regex list \<Rightarrow> string \<Rightarrow> string" where
  "address_loop [] cleaned = []"
| "address_loop (pattern # rest) cleaned =
     (case match_first True pattern cleaned of
        None \<Rightarrow> address_loop rest cleaned
      | Some m \<Rightarrow>
          (let address = clean_address m
           in if 10 < length address then address else address_loop rest cleaned))"

text \<open>\<open>/\b\d{6}\b/\<close>\<close>

definition pincodePattern :: regex where
  "pincodePattern = Seqs [WordB, Rep 6 digit_c, WordB]"

definition of_match :: "string option \<Rightarrow> string" where
  "of_match m = (case m of None \<Rightarrow> [] | Some x \<Rightarrow> x)"

definition extractTextInfoEnhanced :: "string \<Rightarrow> info" where
  "extractTextInfoEnhanced text =
     (if text = [] then info0
      else (let cleaned = cleanedText text
            in \<lparr>name = name_loop namePatterns cleaned,
                title_i = first_match_loop [titlePattern] cleaned,
                company = first_match_loop companyPatterns cleaned,
                phone = phone_loop phonePatterns cleaned,
                email = of_match (match_first False emailPattern cleaned),
                website = of_match (match_first True websitePattern cleaned),
                address = address_loop addressPatterns cleaned,
                otherInfo = (case match_first False pincodePattern cleaned of
                               None \<Rightarrow> []
                             | Some m \<Rightarrow> [''Pincode: '' @ m])\<rparr>))"

section \<open>Notions used in the statements\<close>

text \<open>The conditions of the rules that \<open>parseQRContent\<close> tries before the plain-text
  rule, and the kinds that the rules assign.\<close>

definition earlier_rule_matches :: "string \<Rightarrow> bool" where
  "earlier_rule_matches qrData =
     (startsWith qrData ''http://'' \<or> startsWith qrData ''https://'' \<or> startsWith qrData ''www.''
      \<or> (includes_str qrData ''@'' \<and> includes_str qrData ''.'')
      \<or> regex_test False phone_regex qrData
      \<or> startsWith qrData ''BEGIN:VCARD''
      \<or> startsWith qrData ''WIFI:''
      \<or> startsWith qrData ''sms:''
      \<or> includes_str qrData ''linkedin.com''
      \<or> list_ex (\<lambda>p. includes_str qrData p) socialPlatforms)"

definition content_types :: "string list" where
  "content_types = [''url'', ''email'', ''phone'', ''vcard'', ''wifi'', ''sms'', ''linkedin'', ''social'', ''text'']"

text \<open>The sample vCard payload.\<close>

definition jane_vcard :: string where
  "jane_vcard = ''BEGIN:VCARD\<newline>FN:Jane Doe\<newline>ORG:Acme Ltd\<newline>EMAIL:jane@acme.com\<newline>END:VCARD''"

text \<open>The characters of the phone test, the payload without one leading \<open>+\<close>, and the
  payloads that get as far as the phone rule.\<close>

definition phone_char :: "char \<Rightarrow> bool" where
  "phone_char c = (is_digit c \<or> is_ws c \<or> c = CHR ''-'' \<or> c = CHR ''('' \<or> c = CHR '')'')"

definition phone_body :: "string \<Rightarrow> string" where
  "phone_body s = (case s of [] \<Rightarrow> [] | c # cs \<Rightarrow> if c = CHR ''+'' then cs else s)"

definition reaches_phone_rule :: "string \<Rightarrow> bool" where
  "reaches_phone_rule qrData =
     (\<not> (startsWith qrData ''http://'' \<or> startsWith qrData ''https://'' \<or> startsWith qrData ''www.'')
      \<and> \<not> (includes_str qrData ''@'' \<and> includes_str qrData ''.''))"

text \<open>
  The phone shape as the specification words it, for comparison with the test of the
  source: only digits, separators and \<open>+\<close>, and at least ten characters left once the
  separators (space, dash, parentheses) are stripped.
\<close>

definition is_separator :: "char \<Rightarrow> bool" where
  "is_separator c = (c = CHR '' '' \<or> c = CHR ''-'' \<or> c = CHR ''('' \<or> c = CHR '')'')"

definition spec_phone_shape :: "string \<Rightarrow> bool" where
  "spec_phone_shape s =
     (list_all (\<lambda>c. is_digit c \<or> is_separator c \<or> c = CHR ''+'') s
      \<and> 10 \<le> length (filter (\<lambda>c. \<not> is_separator c) s))"

text \<open>The sample text of the extractor.\<close>

definition sample_text :: string where
  "sample_text = ''M +91 9848806006 Tel: 91-40-55316666 Ohri Towers, Road No. 2, 500034''"

text \<open>A level of the preprocessing loop fails when neither decoder finds a payload in
  its image. \<open>paired\<close> says that a list of events is made of pairs, a local attempt and
  then a remote attempt on the same image, with at most one local attempt left over at
  the end.\<close>

definition level_fails :: "local_decoder \<Rightarrow> remote_decoder \<Rightarrow> image \<Rightarrow> bool" where
  "level_fails jsQR goQR p = (jsQR p = None \<and> remote_found goQR p = [])"

fun paired :: "event list \<Rightarrow> bool" where
  "paired [] = True"
| "paired [Local p] = True"
| "paired (Local p # Remote q # es) = (p = q \<and> paired es)"
| "paired es = False"

text \<open>The byte that a loop over the pixels leaves at index \<open>j\<close>, when the round at offset
  \<open>i\<close> writes \<open>R i\<close>, \<open>G i\<close>, \<open>B i\<close> and \<open>A i\<close>.\<close>

definition pixel_byte :: "(nat \<Rightarrow> byte) \<Rightarrow> (nat \<Rightarrow> byte) \<Rightarrow> (nat \<Rightarrow> byte) \<Rightarrow> (nat \<Rightarrow> byte) \<Rightarrow> nat \<Rightarrow> byte" where
  "pixel_byte R G B A j =
     (let i = 4 * (j div 4) in
      if j mod 4 = 0 then R i else if j mod 4 = 1 then G i else if j mod 4 = 2 then B i else A i)"

text \<open>The alpha bytes of a pixel array.\<close>

definition alpha_channel :: "byte list \<Rightarrow> byte list" where
  "alpha_channel d = map (\<lambda>p. d ! (4 * p + 3)) [0..<length d div 4]"

text \<open>What a transform has to do to keep the frame of its input: it returns an image of
  the same width and height, with as many bytes and with the same alpha bytes.\<close>

definition keeps_frame :: "image \<Rightarrow> js_error + image \<Rightarrow> bool" where
  "keeps_frame img res =
     (case res of
        Inl e \<Rightarrow> False
      | Inr out \<Rightarrow> width out = width img \<and> height out = height img
                   \<and> length (data out) = length (data img)
                   \<and> alpha_channel (data out) = alpha_channel (data img))"

text \<open>The threshold that \<open>applyThreshold\<close> computes for a pixel array.\<close>

definition threshold_of :: "(nat \<Rightarrow> nat \<Rightarrow> nat \<Rightarrow> nat) \<Rightarrow> byte list \<Rightarrow> nat option" where
  "threshold_of lum d =
     mean_threshold (fold (histogram_step lum d) (offsets (length d)) (replicate 256 0))"

text \<open>The byte that \<open>increaseContrast\<close> stores for a colour byte.\<close>

definition contrast_byte :: "byte \<Rightarrow> byte" where
  "contrast_byte v = toUint8Clamp (contrast_value v)"

text \<open>A run in which the early return of the remote attempt on the original image is
  taken: an image of two pixels, a local decoder that finds nothing, and a remote decoder
  that finds the same payload twice in the original image and nothing in its renderings.\<close>

definition two_pixels :: image where
  "two_pixels = \<lparr>width = 2, height = 1, data = [100, 100, 100, 255, 200, 200, 200, 255]\<rparr>"

definition twin :: qr_result where
  "twin = \<lparr>qdata = ''https://example.com'', qtype = ''QRCODE'', qlocation = None, qmethod = ''goqr''\<rparr>"

definition jsQR_blind :: local_decoder where
  "jsQR_blind img = None"

definition goQR_twins :: remote_decoder where
  "goQR_twins img = (if img = two_pixels then Inr [twin, twin] else Inr [])"

text \<open>A flat image: one pixel, every byte 100.\<close>

definition flat_pixel :: image where
  "flat_pixel = \<lparr>width = 1, height = 1, data = [100, 100, 100, 100]\<rparr>"

text \<open>Two renderings of \<open>two_pixels\<close>: with the contrast raised, and at half the size.\<close>

definition two_pixels_contrast :: image where
  "two_pixels_contrast = \<lparr>width = 2, height = 1, data = [86, 86, 86, 255, 236, 236, 236, 255]\<rparr>"

definition two_pixels_half :: image where
  "two_pixels_half = \<lparr>width = 1, height = 1, data = [100, 100, 100, 255]\<rparr>"

text \<open>
  \<open>post ic r Q P\<close>: from a state whose consumed text satisfies \<open>Q\<close>, every match of \<open>r\<close>
  ends in a state whose consumed text satisfies \<open>P\<close>. The consumed text is reversed, so
  its head is the character matched last.
\<close>

definition post :: "bool \<Rightarrow> regex \<Rightarrow> (string \<Rightarrow> bool) \<Rightarrow> (string \<Rightarrow> bool) \<Rightarrow> bool" where
  "post ic r Q P = (\<forall>b s st. Q b \<longrightarrow> st \<in> set (rmatch ic r (b, s)) \<longrightarrow> P (fst st))"

definition ends_alpha :: "string \<Rightarrow> bool" where
  "ends_alpha b = (b \<noteq> [] \<and> is_alpha (hd b))"

text \<open>
  The name as the specification words it, for comparison with the source: the first line
  of the text, split on line breaks, that matches the pattern of two or three
  capitalised words and contains none of the keywords; empty when there is no such line.
\<close>

definition spec_name :: "string \<Rightarrow> string" where
  "spec_name text =
     (case find (\<lambda>l. regex_test False (hd namePatterns) l
                     \<and> \<not> list_ex (\<lambda>k. includes_str (toLowerCase l) k) name_keywords)
                (split_chr CHR ''\<newline>'' text) of
        None \<Rightarrow> []
      | Some l \<Rightarrow> l)"

text \<open>Two sample texts of two lines each.\<close>

definition acme_text :: string where
  "acme_text = ''ACME\<newline>John Smith''"

definition split_name_text :: string where
  "split_name_text = ''John\<newline>Smith''"

text \<open>
  What the wrapper makes of a JSON body. \<open>entry_of\<close> is the entry that the \<open>map\<close> callback
  builds from an element that is not \<open>null\<close>: a missing field reads \<open>undefined\<close>.
  \<open>accepted_entries\<close> are the elements that reach the callback: those of \<open>qr_codes\<close>, when
  the body is an object whose \<open>success\<close> is truthy and whose \<open>qr_codes\<close> is an array with
  no \<open>null\<close> in it; none otherwise.
\<close>

definition prop_or_undef :: "json \<Rightarrow> string \<Rightarrow> json option" where
  "prop_or_undef v k = (case get_prop v k of Inl e \<Rightarrow> None | Inr x \<Rightarrow> x)"

definition entry_of :: "json \<Rightarrow> api_result" where
  "entry_of qr =
     \<lparr>a_data = prop_or_undef qr ''data'', a_type = prop_or_undef qr ''type'',
      a_location = prop_or_undef qr ''rect'', a_method = prop_or_undef qr ''method''\<rparr>"

definition accepted_entries :: "json \<Rightarrow> json list" where
  "accepted_entries result =
     (case result of
        JObj kvs \<Rightarrow>
          (if truthy (map_of kvs ''success'') then
             (case map_of kvs ''qr_codes'' of
                Some (JArr xs) \<Rightarrow> if JNull \<in> set xs then [] else xs
              | _ \<Rightarrow> [])
           else [])
      | _ \<Rightarrow> [])"

text \<open>
  A decode result as the specification describes the answer of the remote service, an
  object with a string under \<open>data\<close>, and a body that answers with the number 5 in place
  of a decode result.
\<close>

definition spec_decode_result :: "json \<Rightarrow> bool" where
  "spec_decode_result v =
     (case v of
        JObj kvs \<Rightarrow> (case map_of kvs ''data'' of Some (JStr s) \<Rightarrow> True | _ \<Rightarrow> False)
      | _ \<Rightarrow> False)"

definition odd_body :: json where
  "odd_body = JObj [(''success'', JBool True), (''qr_codes'', JArr [JNum 5])]"

text \<open>
  The name patterns as scanners, without the matcher. \<open>one_of P\<close> takes one character
  that satisfies \<open>P\<close>, \<open>run_of P\<close> the longest run of such characters, which must not be
  empty; both return what they took and the rest. A capitalised word is one capital
  letter and the longest run of lower-case letters after it.
\<close>

definition one_of :: "(char \<Rightarrow> bool) \<Rightarrow> string \<Rightarrow> (string \<times> string) option" where
  "one_of P s = (case s of [] \<Rightarrow> None | x # xs \<Rightarrow> if P x then Some ([x], xs) else None)"

definition run_of :: "(char \<Rightarrow> bool) \<Rightarrow> string \<Rightarrow> (string \<times> string) option" where
  "run_of P s = (if takeWhile P s = [] then None else Some (takeWhile P s, dropWhile P s))"

definition cap_word_at :: "string \<Rightarrow> (string \<times> string) option" where
  "cap_word_at s =
     (case one_of is_upper s of
        None \<Rightarrow> None
      | Some (u, r) \<Rightarrow>
          (case run_of is_lower r of
             None \<Rightarrow> None
           | Some (l, r') \<Rightarrow> Some (u @ l, r')))"

text \<open>White space and a third capitalised word, when the text goes on with them.\<close>

definition third_word :: "string \<Rightarrow> string" where
  "third_word r =
     (case run_of is_ws r of
        None \<Rightarrow> []
      | Some (s2, r4) \<Rightarrow>
          (case cap_word_at r4 of
             None \<Rightarrow> []
           | Some (w3, r5) \<Rightarrow> s2 @ w3))"

text \<open>The prefix made of two capitalised words with white space between them, and of
  a third one where there is one.\<close>

definition long_name :: "string \<Rightarrow> string option" where
  "long_name c =
     (case cap_word_at c of
        None \<Rightarrow> None
      | Some (w1, r1) \<Rightarrow>
          (case run_of is_ws r1 of
             None \<Rightarrow> None
           | Some (s1, r2) \<Rightarrow>
               (case cap_word_at r2 of
                  None \<Rightarrow> None
                | Some (w2, r3) \<Rightarrow> Some (w1 @ s1 @ w2 @ third_word r3))))"

text \<open>The prefix made of a capitalised word, white space and one capital letter.\<close>

definition short_name :: "string \<Rightarrow> string option" where
  "short_name c =
     (case cap_word_at c of
        None \<Rightarrow> None
      | Some (w1, r1) \<Rightarrow>
          (case run_of is_ws r1 of
             None \<Rightarrow> None
           | Some (s1, r2) \<Rightarrow>
               (case one_of is_upper r2 of
                  None \<Rightarrow> None
                | Some (u, r3) \<Rightarrow> Some (w1 @ s1 @ u))))"

text \<open>The name read at the beginning of a cleaned text: the long prefix if it is valid,
  else the short prefix if it is valid, else nothing.\<close>

definition valid_or_empty :: "string option \<Rightarrow> string" where
  "valid_or_empty m = (case m of None \<Rightarrow> [] | Some n \<Rightarrow> if valid_name n then n else [])"

definition name_at_start :: "string \<Rightarrow> string" where
  "name_at_start c =
     (case long_name c of
        None \<Rightarrow> valid_or_empty (short_name c)
      | Some m \<Rightarrow> if valid_name m then m else valid_or_empty (short_name c))"

text \<open>A text with every run of white space, line breaks included, replaced by one
  space.\<close>

function collapse_ws :: "string \<Rightarrow> string" where
  "collapse_ws [] = []"
| "collapse_ws (c # cs) =
     (if is_ws c then CHR '' '' # collapse_ws (dropWhile is_ws cs) else c # collapse_ws cs)"
  by pat_completeness auto
termination
  by (relation "measure length") (auto simp: le_imp_less_Suc length_dropWhile_le)

text \<open>The first entry of a list of matches.\<close>

definition first_of :: "'a list \<Rightarrow> 'a option" where
  "first_of xs = (case xs of [] \<Rightarrow> None | x # _ \<Rightarrow> Some x)"

section \<open>Properties of the classifier\<close>

lemma split_chr_nonempty: "split_chr sep s \<noteq> []"
  by (induction s) (auto split: list.splits)

lemma vcard_line_returns: "\<exists>d'. vcard_line l d = Inr d'"
proof -
  have "split_chr CHR '':'' (trim l) \<noteq> []" by (rule split_chr_nonempty)
  then have "0 < length (take 2 (split_chr CHR '':'' (trim l)))" by simp
  then show ?thesis
    by (simp add: vcard_line_def split_limit_def at_index_def Let_def)
qed

lemma vcard_lines_returns: "\<exists>d'. vcard_lines ls d = Inr d'"
proof (induction ls arbitrary: d)
  case Nil
  show ?case by simp
next
  case (Cons l ls)
  obtain d1 where "vcard_line l d = Inr d1" using vcard_line_returns by blast
  with Cons.IH [of d1] show ?case by simp
qed

lemma parseVCard_returns: "\<exists>d. parseVCard s = Inr d"
  unfolding parseVCard_def by (rule vcard_lines_returns)

lemma find_None_list_ex: "find P xs = None \<longleftrightarrow> \<not> list_ex P xs"
  by (auto simp: find_None_iff list_ex_iff)

lemma body_returns:
  "\<exists>p. parseQRContent_body s = Inr p \<and> content_type p \<in> set content_types
      \<and> (earlier_rule_matches s \<or> content_type p = ''text'')"
proof -
  obtain d where d: "parseVCard s = Inr d" using parseVCard_returns by blast
  show ?thesis
  proof (cases "find (\<lambda>p. includes_str s p) socialPlatforms")
    case None
    then have "\<not> list_ex (\<lambda>p. includes_str s p) socialPlatforms"
      by (simp add: find_None_list_ex)
    with None show ?thesis
      unfolding parseQRContent_body_def Let_def parsed0_def content_types_def earlier_rule_matches_def
      by (simp add: d)
  next
    case (Some platform)
    then have "list_ex (\<lambda>p. includes_str s p) socialPlatforms"
      using find_None_list_ex [of "\<lambda>p. includes_str s p" socialPlatforms] by simp
    with Some show ?thesis
      unfolding parseQRContent_body_def Let_def parsed0_def content_types_def earlier_rule_matches_def
      by (simp add: d)
  qed
qed

text \<open>
  Claim C9. For every input string the body of \<open>parseQRContent\<close> returns without an
  exception, and the content type of the result is one of the nine kinds that the rules
  assign: it is never \<open>unknown\<close> and never \<open>error\<close>. When none of the earlier rules
  matches, the plain-text rule gives the kind \<open>text\<close>.
\<close>

theorem parseQRContent_kind_known:
  "(\<forall>e. parseQRContent_body s \<noteq> Inl e)
   \<and> content_type (parseQRContent s) \<in> set content_types
   \<and> content_type (parseQRContent s) \<noteq> ''unknown''
   \<and> content_type (parseQRContent s) \<noteq> ''error''
   \<and> (earlier_rule_matches s \<or> content_type (parseQRContent s) = ''text'')"
proof -
  obtain p where p: "parseQRContent_body s = Inr p" "content_type p \<in> set content_types"
      "earlier_rule_matches s \<or> content_type p = ''text''"
    using body_returns by blast
  have q: "parseQRContent s = p" by (simp add: parseQRContent_def p(1))
  have "''unknown'' \<notin> set content_types" "''error'' \<notin> set content_types"
    by (simp_all add: content_types_def)
  with p q show ?thesis by auto
qed

theorem parseQRContent_kind_known_witness:
  "content_type (parseQRContent ''hello'') = ''text'' \<and> \<not> earlier_rule_matches ''hello''"
proof -
  have n: "\<not> earlier_rule_matches ''hello''" by code_simp
  with parseQRContent_kind_known [of "''hello''"] show ?thesis by blast
qed

text \<open>
  The vCard parser alone reads the three fields of the sample card.
\<close>

lemma parseVCard_jane:
  "parseVCard jane_vcard =
     Inr [(''name'', Str ''Jane Doe''), (''company'', Str ''Acme Ltd''), (''email'', Str ''jane@acme.com'')]"
  unfolding jane_vcard_def by code_simp

text \<open>
  Claim C1. The sample card begins with \<open>BEGIN:VCARD\<close>, but it contains \<open>@\<close> and a dot, so
  the e-mail rule, which the classifier tries before the vCard rule, takes it: the kind
  is \<open>email\<close>, the only field is the whole payload under \<open>email\<close>, and the vCard parser
  is never reached.
\<close>

theorem parseQRContent_jane_vcard_is_email:
  "startsWith jane_vcard ''BEGIN:VCARD''
   \<and> parseQRContent jane_vcard =
       \<lparr>content_type = ''email'', title = ''Email Address'',
        details = [(''email'', Str jane_vcard)], raw_data = jane_vcard\<rparr>
   \<and> content_type (parseQRContent jane_vcard) \<noteq> ''vcard''"
  unfolding jane_vcard_def by code_simp

subsection \<open>The phone rule\<close>

lemma search_from_Bol_later: "b \<noteq> [] \<Longrightarrow> search_from ic (Seq Bol r) b s = None"
  by (induction s arbitrary: b) simp_all

lemma regex_test_Bol: "regex_test ic (Seq Bol r) s \<longleftrightarrow> rmatch ic r ([], s) \<noteq> []"
  by (cases s) (auto simp: regex_test_def search_from_Bol_later split: list.splits)

lemma rmatch_Rep_Cls:
  "rmatch ic (Rep n (Cls items)) (b, s) =
     (if n \<le> length s \<and> list_all (cls_match ic items) (take n s)
      then [(rev (take n s) @ b, drop n s)] else [])"
proof (induction n arbitrary: b s)
  case 0
  show ?case by simp
next
  case (Suc n)
  show ?case
  proof (cases s)
    case Nil
    then show ?thesis by simp
  next
    case (Cons x xs)
    then show ?thesis by (simp add: Suc.IH)
  qed
qed

lemma rmatch_Star_Cls_end:
  "(\<exists>st \<in> set (rmatch ic (Star (Cls items)) (b, s)). snd st = []) \<longleftrightarrow> list_all (cls_match ic items) s"
proof (induction s arbitrary: b)
  case Nil
  show ?case by simp
next
  case (Cons x xs)
  show ?case
  proof (cases "cls_match ic items x")
    case True
    then show ?thesis using Cons.IH [of "x # b"] by simp
  next
    case False
    then show ?thesis by simp
  qed
qed

lemma rmatch_Seq_Eol:
  "rmatch ic (Seq r Eol) (b, s) \<noteq> [] \<longleftrightarrow> (\<exists>st \<in> set (rmatch ic r (b, s)). snd st = [])"
proof -
  have "rmatch ic Eol st \<noteq> [] \<longleftrightarrow> snd st = []" for st
    by (cases st) simp
  then show ?thesis by simp
qed

lemma rmatch_RepMin_Eol:
  "rmatch ic (Seq (RepMin n (Cls items)) Eol) (b, s) \<noteq> []
     \<longleftrightarrow> n \<le> length s \<and> list_all (cls_match ic items) s"
proof -
  have "list_all (cls_match ic items) s
          \<longleftrightarrow> list_all (cls_match ic items) (take n s) \<and> list_all (cls_match ic items) (drop n s)"
    by (metis append_take_drop_id list_all_append)
  then show ?thesis
    unfolding rmatch_Seq_Eol RepMin_def
    by (simp add: rmatch_Rep_Cls rmatch_Star_Cls_end del: rmatch.simps(7))
qed

lemma rmatch_Seq_Opt_Chr:
  "rmatch ic (Seq (Opt (Chr c)) r) (b, s) =
     (case s of [] \<Rightarrow> [] | x # xs \<Rightarrow> if item_match ic x (One c) then rmatch ic r (x # b, xs) else [])
     @ rmatch ic r (b, s)"
  by (simp add: Opt_def split: list.split)

lemma cls_match_phone_items: "cls_match False phone_items c = phone_char c"
  by (auto simp: cls_match_def phone_items_def phone_char_def)

lemma plus_not_phone_char: "\<not> phone_char CHR ''+''"
  by (simp add: phone_char_def is_digit_def is_ws_def code_def)

lemma regex_test_phone:
  "regex_test False phone_regex s \<longleftrightarrow> 10 \<le> length (phone_body s) \<and> list_all phone_char (phone_body s)"
proof -
  let ?R = "Seq (RepMin 10 (Cls phone_items)) Eol"
  have eq: "cls_match False phone_items = phone_char"
    by (rule ext) (rule cls_match_phone_items)
  have ok: "rmatch False ?R (b, t) \<noteq> [] \<longleftrightarrow> 10 \<le> length t \<and> list_all phone_char t" for b t
    by (rule rmatch_RepMin_Eol [of False 10 phone_items b t, unfolded eq])
  have "regex_test False phone_regex s \<longleftrightarrow> rmatch False (Seq (Opt (Chr CHR ''+'')) ?R) ([], s) \<noteq> []"
    unfolding phone_regex_def by (rule regex_test_Bol)
  also have "\<dots> \<longleftrightarrow> 10 \<le> length (phone_body s) \<and> list_all phone_char (phone_body s)"
  proof (cases s)
    case Nil
    then show ?thesis using ok [of "[]" "[]"] by (simp add: rmatch_Seq_Opt_Chr phone_body_def del: rmatch.simps)
  next
    case (Cons c cs)
    show ?thesis
    proof (cases "c = CHR ''+''")
      case True
      have "\<not> (10 \<le> length s \<and> list_all phone_char s)"
        using Cons True plus_not_phone_char by simp
      then have "rmatch False ?R ([], s) = []" using ok [of "[]" s] by blast
      with Cons True show ?thesis
        using ok [of "[c]" cs] by (simp add: rmatch_Seq_Opt_Chr phone_body_def del: rmatch.simps)
    next
      case False
      with Cons show ?thesis
        using ok [of "[]" s] by (simp add: rmatch_Seq_Opt_Chr phone_body_def del: rmatch.simps)
    qed
  qed
  finally show ?thesis .
qed

text \<open>
  Claim C7, amended. For a payload that reaches the phone rule, the kind is \<open>phone\<close>
  exactly when the payload, without one optional leading \<open>+\<close>, has at least ten
  characters and each of them is a digit, a white-space character, a dash or a
  parenthesis. The separators count towards the ten.
\<close>

theorem parseQRContent_phone_iff:
  assumes "reaches_phone_rule s"
  shows "content_type (parseQRContent s) = ''phone''
           \<longleftrightarrow> 10 \<le> length (phone_body s) \<and> list_all phone_char (phone_body s)"
proof -
  obtain d where d: "parseVCard s = Inr d" using parseVCard_returns by blast
  have "content_type (parseQRContent s) = ''phone'' \<longleftrightarrow> regex_test False phone_regex s"
    using assms
    by (simp add: parseQRContent_def parseQRContent_body_def reaches_phone_rule_def parsed0_def
        Let_def d split: option.split)
  then show ?thesis by (simp add: regex_test_phone)
qed

theorem parseQRContent_phone_iff_witness:
  "reaches_phone_rule ''+919848806006'' \<and> content_type (parseQRContent ''+919848806006'') = ''phone''"
proof -
  have r: "reaches_phone_rule ''+919848806006''" by code_simp
  have b: "10 \<le> length (phone_body ''+919848806006'') \<and> list_all phone_char (phone_body ''+919848806006'')"
    by code_simp
  from r b parseQRContent_phone_iff [OF r] show ?thesis by blast
qed

text \<open>
  Claim C7 as stated fails: \<open>12345-6789\<close> is classified as a phone number, with nine
  characters left after the separators are stripped.
\<close>

theorem phone_rule_counts_separators:
  "reaches_phone_rule ''12345-6789''
   \<and> content_type (parseQRContent ''12345-6789'') = ''phone''
   \<and> \<not> spec_phone_shape ''12345-6789''"
  by code_simp

section \<open>Properties of the field extractor\<close>

lemma cleanedText_sample: "cleanedText sample_text = sample_text"
  unfolding sample_text_def by code_simp

lemma phone_loop_sample: "phone_loop phonePatterns sample_text = ''+919848806006''"
  unfolding sample_text_def by code_simp

lemma address_loop_sample: "address_loop addressPatterns sample_text = ''Ohri Towers''"
  unfolding sample_text_def by code_simp

lemma sample_text_nonempty: "sample_text \<noteq> []"
  by (simp add: sample_text_def)

text \<open>
  Claim C6. On the sample text the phone field is \<open>+919848806006\<close>, which has no letter
  in it, and the address field is \<open>Ohri Towers\<close>, which has no digit in it and so no
  match of the phone-shaped digit run \<open>\d{2,3}[\s\-]?\d{7,8}\<close>.
\<close>

theorem extract_sample_phone_address:
  "phone (extractTextInfoEnhanced sample_text) = ''+919848806006''
   \<and> filter is_alpha (phone (extractTextInfoEnhanced sample_text)) = []
   \<and> address (extractTextInfoEnhanced sample_text) = ''Ohri Towers''
   \<and> filter is_digit (address (extractTextInfoEnhanced sample_text)) = []
   \<and> match_first False phone_run (address (extractTextInfoEnhanced sample_text)) = None"
proof -
  have p: "phone (extractTextInfoEnhanced sample_text) = ''+919848806006''"
    by (simp add: extractTextInfoEnhanced_def Let_def sample_text_nonempty cleanedText_sample
        phone_loop_sample)
  have a: "address (extractTextInfoEnhanced sample_text) = ''Ohri Towers''"
    by (simp add: extractTextInfoEnhanced_def Let_def sample_text_nonempty cleanedText_sample
        address_loop_sample)
  have p1: "filter is_alpha ''+919848806006'' = []" by code_simp
  have a1: "filter is_digit ''Ohri Towers'' = []" by code_simp
  have a2: "match_first False phone_run ''Ohri Towers'' = None" by code_simp
  show ?thesis
    unfolding p a using p1 a1 a2 by simp
qed

section \<open>Properties of the detection cascade\<close>

subsection \<open>Deduplication\<close>

lemma removeDuplicates_from_data:
  "qdata ` set (removeDuplicates_from seen rs) = qdata ` set rs - seen"
  by (induction rs arbitrary: seen) auto

lemma removeDuplicates_from_distinct: "distinct (map qdata (removeDuplicates_from seen rs))"
  by (induction rs arbitrary: seen) (auto simp: removeDuplicates_from_data)

lemma removeDuplicates_from_fixed:
  "distinct (map qdata rs) \<Longrightarrow> set (map qdata rs) \<inter> seen = {} \<Longrightarrow> removeDuplicates_from seen rs = rs"
  by (induction rs arbitrary: seen) auto

lemma removeDuplicates_from_first:
  "r \<in> set (removeDuplicates_from seen rs) \<Longrightarrow> find (\<lambda>x. qdata x = qdata r) rs = Some r"
proof (induction rs arbitrary: seen)
  case Nil
  then show ?case by simp
next
  case (Cons x xs)
  show ?case
  proof (cases "qdata x \<in> seen")
    case True
    with Cons.prems have r: "r \<in> set (removeDuplicates_from seen xs)" by simp
    then have "qdata r \<in> qdata ` set (removeDuplicates_from seen xs)" by (rule imageI)
    then have "qdata r \<notin> seen" unfolding removeDuplicates_from_data by simp
    with True have "qdata x \<noteq> qdata r" by auto
    with Cons.IH [OF r] show ?thesis by simp
  next
    case False
    show ?thesis
    proof (cases "r = x")
      case True
      then show ?thesis by simp
    next
      case neq: False
      with False Cons.prems have r: "r \<in> set (removeDuplicates_from (insert (qdata x) seen) xs)"
        by simp
      then have "qdata r \<in> qdata ` set (removeDuplicates_from (insert (qdata x) seen) xs)"
        by (rule imageI)
      then have "qdata r \<noteq> qdata x" unfolding removeDuplicates_from_data by simp
      with Cons.IH [OF r] show ?thesis by simp
    qed
  qed
qed

text \<open>
  The deduplication step by itself does what claim C3 says of it: the result has every
  data string of the input, each once; an entry that is kept is the first one of the
  input with its data string; and the step changes nothing in its own output.
\<close>

lemma removeDuplicates_data: "set (map qdata (removeDuplicates rs)) = set (map qdata rs)"
  by (simp add: removeDuplicates_def removeDuplicates_from_data)

lemma removeDuplicates_distinct: "distinct (map qdata (removeDuplicates rs))"
  by (simp add: removeDuplicates_def removeDuplicates_from_distinct)

lemma removeDuplicates_once:
  "d \<in> set (map qdata rs) \<Longrightarrow> count_list (map qdata (removeDuplicates rs)) d = 1"
proof -
  have "distinct xs \<Longrightarrow> d \<in> set xs \<Longrightarrow> count_list xs d = 1" for xs :: "string list"
    by (induction xs) auto
  then show "d \<in> set (map qdata rs) \<Longrightarrow> count_list (map qdata (removeDuplicates rs)) d = 1"
    using removeDuplicates_data [of rs] removeDuplicates_distinct [of rs] by simp
qed

lemma removeDuplicates_first_seen:
  "r \<in> set (removeDuplicates rs) \<Longrightarrow> find (\<lambda>x. qdata x = qdata r) rs = Some r"
  unfolding removeDuplicates_def by (rule removeDuplicates_from_first)

lemma removeDuplicates_idem: "removeDuplicates (removeDuplicates rs) = removeDuplicates rs"
  unfolding removeDuplicates_def
  by (rule removeDuplicates_from_fixed) (simp_all add: removeDuplicates_from_distinct)

text \<open>
  When the local decoder and the preprocessing loop find nothing and the remote decoder
  finds something in the original image, the run returns the remote results as they
  are: the early return comes before the deduplication step.
\<close>

lemma detectQRCodes_early_return:
  assumes "jsQR img = None"
    and "fst (preprocessed_loop jsQR goQR (preprocessImage lum img)) = []"
    and "remote_found goQR img \<noteq> []"
  shows "fst (detectQRCodes jsQR goQR lum img) = remote_found goQR img"
  using assms by (simp add: detectQRCodes_def Let_def split_def)

subsection \<open>The order of the decoder invocations\<close>

lemma preprocessed_loop_events:
  "snd (preprocessed_loop jsQR goQR ps) =
     concat (map (\<lambda>p. [Local p, Remote p]) (takeWhile (level_fails jsQR goQR) ps))
     @ (case dropWhile (level_fails jsQR goQR) ps of
          [] \<Rightarrow> []
        | p # rest \<Rightarrow> if jsQR p \<noteq> None then [Local p] else [Local p, Remote p])"
  by (induction ps) (auto simp: level_fails_def Let_def split_def split: option.splits)

lemma preprocessed_loop_results:
  "fst (preprocessed_loop jsQR goQR ps) =
     (case dropWhile (level_fails jsQR goQR) ps of
        [] \<Rightarrow> []
      | p # rest \<Rightarrow> (case jsQR p of Some r \<Rightarrow> [r] | None \<Rightarrow> remote_found goQR p))"
  by (induction ps) (auto simp: level_fails_def Let_def split_def split: option.splits)

lemma preprocessed_loop_none:
  "fst (preprocessed_loop jsQR goQR ps) = [] \<longleftrightarrow> dropWhile (level_fails jsQR goQR) ps = []"
proof (cases "dropWhile (level_fails jsQR goQR) ps")
  case Nil
  then show ?thesis by (simp add: preprocessed_loop_results del: dropWhile_eq_Nil_conv)
next
  case (Cons p rest)
  then have "\<not> level_fails jsQR goQR p" using hd_dropWhile [of "level_fails jsQR goQR" ps] by simp
  with Cons show ?thesis
    by (auto simp: preprocessed_loop_results level_fails_def simp del: dropWhile_eq_Nil_conv
        split: option.splits)
qed

lemma preprocessed_loop_paired: "paired (snd (preprocessed_loop jsQR goQR ps))"
  by (induction ps) (auto simp: Let_def split_def split: option.splits)

text \<open>
  Claim C2. The events of a run are: the local attempt on the original image; then, if it
  found nothing, for each preprocessed image in the order of \<open>preprocessImage\<close> and as
  long as both decoders find nothing, the local attempt followed by the remote attempt on
  that image; at the first image where a decoder finds a payload, the local attempt and,
  only if it found nothing, the remote attempt, after which no decoder is invoked any
  more; and the remote attempt on the original image only if every preprocessed image
  failed. The events of the loop come in pairs: no remote attempt without the local
  attempt on the same image just before it.
\<close>

theorem detectQRCodes_events:
  "snd (detectQRCodes jsQR goQR lum img) =
     (if jsQR img \<noteq> None then [Local img]
      else Local img
           # concat (map (\<lambda>p. [Local p, Remote p])
                         (takeWhile (level_fails jsQR goQR) (preprocessImage lum img)))
           @ (case dropWhile (level_fails jsQR goQR) (preprocessImage lum img) of
                [] \<Rightarrow> [Remote img]
              | p # rest \<Rightarrow> if jsQR p \<noteq> None then [Local p] else [Local p, Remote p]))
   \<and> paired (snd (preprocessed_loop jsQR goQR (preprocessImage lum img)))"
proof (rule conjI)
  show "paired (snd (preprocessed_loop jsQR goQR (preprocessImage lum img)))"
    by (rule preprocessed_loop_paired)
next
  let ?E = "snd (detectQRCodes jsQR goQR lum img)"
  show "?E =
     (if jsQR img \<noteq> None then [Local img]
      else Local img
           # concat (map (\<lambda>p. [Local p, Remote p])
                         (takeWhile (level_fails jsQR goQR) (preprocessImage lum img)))
           @ (case dropWhile (level_fails jsQR goQR) (preprocessImage lum img) of
                [] \<Rightarrow> [Remote img]
              | p # rest \<Rightarrow> if jsQR p \<noteq> None then [Local p] else [Local p, Remote p]))"
  proof (cases "jsQR img")
    case (Some r)
    then show ?thesis
      by (simp add: detectQRCodes_def Let_def split_def)
  next
    case None
    show ?thesis
    proof (cases "dropWhile (level_fails jsQR goQR) (preprocessImage lum img)")
      case Nil
      then have "fst (preprocessed_loop jsQR goQR (preprocessImage lum img)) = []"
        by (simp add: preprocessed_loop_none)
      with None Nil show ?thesis
        by (simp add: detectQRCodes_def Let_def split_def preprocessed_loop_events
            del: dropWhile_eq_Nil_conv)
    next
      case (Cons p rest)
      then have "fst (preprocessed_loop jsQR goQR (preprocessImage lum img)) \<noteq> []"
        by (simp add: preprocessed_loop_none)
      with None Cons show ?thesis
        by (simp add: detectQRCodes_def Let_def split_def preprocessed_loop_events
            del: dropWhile_eq_Nil_conv)
    qed
  qed
qed

section \<open>Properties of the preprocessing transforms\<close>

lemma length_write4: "length (write4 d i r g b a) = length d"
  by (simp add: write4_def)

lemma nth_write4:
  "j < length d \<Longrightarrow>
   write4 d i r g b a ! j =
     (if j = i + 3 then a else if j = i + 2 then b else if j = i + 1 then g else if j = i then r
      else d ! j)"
  by (simp add: write4_def nth_list_update)

lemma length_pixel_loop:
  "length (fold (\<lambda>i d. write4 d i (R i) (G i) (B i) (A i)) is d0) = length d0"
  by (induction "is" arbitrary: d0) (simp_all add: length_write4)

lemma pixel_loop_nth:
  "j < length d0 \<Longrightarrow>
   fold (\<lambda>i d. write4 d i (R i) (G i) (B i) (A i)) (map (\<lambda>k. 4 * k) [0..<n]) d0 ! j =
     (if j < 4 * n then pixel_byte R G B A j else d0 ! j)"
proof (induction n)
  case 0
  show ?case by simp
next
  case (Suc n)
  let ?d = "fold (\<lambda>i d. write4 d i (R i) (G i) (B i) (A i)) (map (\<lambda>k. 4 * k) [0..<n]) d0"
  have len: "j < length ?d" using Suc.prems by (simp add: length_pixel_loop)
  have step: "fold (\<lambda>i d. write4 d i (R i) (G i) (B i) (A i)) (map (\<lambda>k. 4 * k) [0..<Suc n]) d0
              = write4 ?d (4 * n) (R (4 * n)) (G (4 * n)) (B (4 * n)) (A (4 * n))"
    by simp
  show ?case
  proof (cases "j < 4 * n")
    case True
    then show ?thesis
      unfolding step using Suc.IH [OF Suc.prems] len by (simp add: nth_write4)
  next
    case False
    show ?thesis
    proof (cases "j < 4 * Suc n")
      case True
      define k where "k = j - 4 * n"
      have jk: "j = 4 * n + k" and k4: "k < 4"
        using True False by (simp_all add: k_def)
      have dm: "(4 * n + k) div 4 = n" "(4 * n + k) mod 4 = k"
        using k4 by simp_all
      have wr: "?thesis \<longleftrightarrow>
          write4 ?d (4 * n) (R (4 * n)) (G (4 * n)) (B (4 * n)) (A (4 * n)) ! (4 * n + k)
            = pixel_byte R G B A (4 * n + k)"
        unfolding step using True by (simp add: jk)
      have lk: "4 * n + k < length ?d" using len by (simp add: jk)
      consider "k = 0" | "k = 1" | "k = 2" | "k = 3" using k4 by linarith
      then have "write4 ?d (4 * n) (R (4 * n)) (G (4 * n)) (B (4 * n)) (A (4 * n)) ! (4 * n + k)
            = pixel_byte R G B A (4 * n + k)"
      proof cases
        case 1
        then show ?thesis using lk dm by (simp add: nth_write4 pixel_byte_def)
      next
        case 2
        then show ?thesis using lk dm by (simp add: nth_write4 pixel_byte_def)
      next
        case 3
        then show ?thesis using lk dm by (simp add: nth_write4 pixel_byte_def)
      next
        case 4
        then show ?thesis using lk dm by (simp add: nth_write4 pixel_byte_def)
      qed
      with wr show ?thesis by blast
    next
      case far: False
      with False show ?thesis
        unfolding step using Suc.IH [OF Suc.prems] len by (simp add: nth_write4)
    qed
  qed
qed

lemma offsets_whole: "offsets (4 * n) = map (\<lambda>k. 4 * k) [0..<n]"
proof -
  have "(4 * n + 3) div 4 = n" by simp
  then show ?thesis by (simp add: offsets_def)
qed

lemma pixel_loop_data:
  assumes "length d0 = 4 * n"
  shows "fold (\<lambda>i d. write4 d i (R i) (G i) (B i) (A i)) (offsets (4 * n)) d0
         = map (pixel_byte R G B A) [0..<4 * n]"
proof (rule nth_equalityI)
  show "length (fold (\<lambda>i d. write4 d i (R i) (G i) (B i) (A i)) (offsets (4 * n)) d0)
        = length (map (pixel_byte R G B A) [0..<4 * n])"
    using assms by (simp add: length_pixel_loop)
next
  fix j
  assume "j < length (fold (\<lambda>i d. write4 d i (R i) (G i) (B i) (A i)) (offsets (4 * n)) d0)"
  then have j: "j < 4 * n" using assms by (simp add: length_pixel_loop)
  then show "fold (\<lambda>i d. write4 d i (R i) (G i) (B i) (A i)) (offsets (4 * n)) d0 ! j
             = map (pixel_byte R G B A) [0..<4 * n] ! j"
    using assms by (simp add: offsets_whole pixel_loop_nth)
qed


lemma alpha_byte:
  assumes "j < length d" and "j mod 4 = 3"
  shows "pixel_byte R G B (\<lambda>i. store_undef (rd d (i + 3))) j = d ! j"
proof -
  have "4 * (j div 4) + 3 = j" using assms(2) by presburger
  then show ?thesis using assms by (simp add: pixel_byte_def rd_def store_undef_def)
qed

lemma colour_byte:
  assumes "j < length d" and "j mod 4 \<noteq> 3"
  shows "pixel_byte (\<lambda>i. f (rd d i)) (\<lambda>i. f (rd d (i + 1))) (\<lambda>i. f (rd d (i + 2))) A j
         = f (Some (d ! j))"
proof -
  have "j mod 4 = 0 \<or> j mod 4 = 1 \<or> j mod 4 = 2" using assms(2) by presburger
  moreover have "j mod 4 = 0 \<Longrightarrow> 4 * (j div 4) = j" by presburger
  moreover have "j mod 4 = 1 \<Longrightarrow> 4 * (j div 4) + 1 = j" by presburger
  moreover have "j mod 4 = 2 \<Longrightarrow> 4 * (j div 4) + 2 = j" by presburger
  ultimately show ?thesis using assms(1) by (auto simp: pixel_byte_def rd_def)
qed

lemma alpha_kept:
  assumes "length d = 4 * n"
  shows "alpha_channel (map (pixel_byte R G B (\<lambda>i. store_undef (rd d (i + 3)))) [0..<4 * n])
         = alpha_channel d"
proof -
  have "pixel_byte R G B (\<lambda>i. store_undef (rd d (i + 3))) (4 * p + 3) = d ! (4 * p + 3)"
    if "p < n" for p
  proof (rule alpha_byte)
    show "4 * p + 3 < length d" using that assms by simp
    show "(4 * p + 3) mod 4 = 3" by presburger
  qed
  then show ?thesis using assms by (simp add: alpha_channel_def)
qed

lemma newImageData_wf:
  "wf_image img \<Longrightarrow>
   newImageData (width img) (height img) =
     Inr \<lparr>width = width img, height = height img,
          data = replicate (4 * (width img * height img)) 0\<rparr>"
  by (simp add: newImageData_def wf_image_def mult.assoc)

lemma increaseContrast_pixels:
  assumes "wf_image img"
  shows "increaseContrast img =
     Inr \<lparr>width = width img, height = height img,
          data = map (pixel_byte (\<lambda>i. contrast_channel (rd (data img) i))
                                 (\<lambda>i. contrast_channel (rd (data img) (i + 1)))
                                 (\<lambda>i. contrast_channel (rd (data img) (i + 2)))
                                 (\<lambda>i. store_undef (rd (data img) (i + 3))))
                     [0..<4 * (width img * height img)]\<rparr>"
proof -
  have len: "length (data img) = 4 * (width img * height img)"
    using assms by (simp add: wf_image_def)
  have st: "contrast_step (data img) =
      (\<lambda>i d. write4 d i (contrast_channel (rd (data img) i)) (contrast_channel (rd (data img) (i + 1)))
                 (contrast_channel (rd (data img) (i + 2))) (store_undef (rd (data img) (i + 3))))"
    by (simp add: contrast_step_def fun_eq_iff)
  show ?thesis
    unfolding increaseContrast_def newImageData_wf [OF assms] st len
    by (simp add: pixel_loop_data)
qed

lemma convertToGrayscale_pixels:
  assumes "wf_image img"
  shows "convertToGrayscale lum img =
     Inr \<lparr>width = width img, height = height img,
          data = map (pixel_byte (\<lambda>i. store_nat (gray_at lum (data img) i))
                                 (\<lambda>i. store_nat (gray_at lum (data img) i))
                                 (\<lambda>i. store_nat (gray_at lum (data img) i))
                                 (\<lambda>i. store_undef (rd (data img) (i + 3))))
                     [0..<4 * (width img * height img)]\<rparr>"
proof -
  have len: "length (data img) = 4 * (width img * height img)"
    using assms by (simp add: wf_image_def)
  have st: "grayscale_step lum (data img) =
      (\<lambda>i d. write4 d i (store_nat (gray_at lum (data img) i)) (store_nat (gray_at lum (data img) i))
                 (store_nat (gray_at lum (data img) i)) (store_undef (rd (data img) (i + 3))))"
    by (simp add: grayscale_step_def fun_eq_iff Let_def)
  show ?thesis
    unfolding convertToGrayscale_def newImageData_wf [OF assms] st len
    by (simp add: pixel_loop_data)
qed

lemma applyThreshold_pixels:
  assumes "wf_image img"
  shows "applyThreshold lum img =
     Inr \<lparr>width = width img, height = height img,
          data = map (pixel_byte (\<lambda>i. threshold_value (gray_at lum (data img) i) (threshold_of lum (data img)))
                                 (\<lambda>i. threshold_value (gray_at lum (data img) i) (threshold_of lum (data img)))
                                 (\<lambda>i. threshold_value (gray_at lum (data img) i) (threshold_of lum (data img)))
                                 (\<lambda>i. store_undef (rd (data img) (i + 3))))
                     [0..<4 * (width img * height img)]\<rparr>"
proof -
  have len: "length (data img) = 4 * (width img * height img)"
    using assms by (simp add: wf_image_def)
  have st: "threshold_step lum t (data img) =
      (\<lambda>i d. write4 d i (threshold_value (gray_at lum (data img) i) t)
                 (threshold_value (gray_at lum (data img) i) t)
                 (threshold_value (gray_at lum (data img) i) t) (store_undef (rd (data img) (i + 3))))"
    for t
    by (simp add: threshold_step_def fun_eq_iff Let_def)
  have "applyThreshold lum img =
     Inr \<lparr>width = width img, height = height img,
          data = fold (threshold_step lum (threshold_of lum (data img)) (data img))
                      (offsets (length (data img))) (replicate (4 * (width img * height img)) 0)\<rparr>"
    unfolding applyThreshold_def newImageData_wf [OF assms] threshold_of_def Let_def by simp
  then show ?thesis
    unfolding st len by (simp add: pixel_loop_data)
qed

text \<open>
  Claim C10. For an image as the browser builds it, each of the three transforms returns
  an image, of the same width and height and with the same number of bytes, in which
  the alpha byte of every pixel is the one of the input. This holds whatever the
  floating-point luminance \<open>lum\<close> computes.
\<close>

theorem transforms_keep_frame:
  assumes "wf_image img"
  shows "keeps_frame img (increaseContrast img)
         \<and> keeps_frame img (convertToGrayscale lum img)
         \<and> keeps_frame img (applyThreshold lum img)"
proof -
  have len: "length (data img) = 4 * (width img * height img)"
    using assms by (simp add: wf_image_def)
  have "keeps_frame img (increaseContrast img)"
    unfolding increaseContrast_pixels [OF assms] keeps_frame_def
    by (simp add: alpha_kept [OF len] len)
  moreover have "keeps_frame img (convertToGrayscale lum img)"
    unfolding convertToGrayscale_pixels [OF assms] keeps_frame_def
    by (simp add: alpha_kept [OF len] len)
  moreover have "keeps_frame img (applyThreshold lum img)"
    unfolding applyThreshold_pixels [OF assms] keeps_frame_def
    by (simp add: alpha_kept [OF len] len)
  ultimately show ?thesis by blast
qed


lemma wf_two_pixels: "wf_image two_pixels"
  by (simp add: wf_image_def two_pixels_def)

theorem transforms_keep_frame_witness:
  "wf_image two_pixels
   \<and> keeps_frame two_pixels (increaseContrast two_pixels)
   \<and> keeps_frame two_pixels (convertToGrayscale luminance_exact two_pixels)
   \<and> keeps_frame two_pixels (applyThreshold luminance_exact two_pixels)"
  using wf_two_pixels transforms_keep_frame [OF wf_two_pixels, of luminance_exact] by blast

subsection \<open>The contrast transform\<close>

lemma toUint8Clamp_half:
  assumes "0 < m" and "m < 510"
  shows "toUint8Clamp (of_int m / 2) = of_int (m div 2 + (if m mod 4 = 3 then 1 else 0))"
proof -
  have pos: "\<not> ((of_int m :: rat) / 2 \<le> 0)" using assms(1) by simp
  have lt: "\<not> (255 \<le> (of_int m :: rat) / 2)" using assms(2) by simp
  show ?thesis
  proof (cases "even m")
    case True
    then obtain k where k: "m = 2 * k" by (elim evenE)
    have x: "(of_int m :: rat) / 2 = of_int k" by (simp add: k)
    have "m mod 4 \<noteq> 3" using k by presburger
    moreover have "m div 2 = k" using k by simp
    ultimately show ?thesis
      using pos lt unfolding toUint8Clamp_def x Let_def by simp
  next
    case False
    then obtain k where k: "m = 2 * k + 1" by (elim oddE)
    have x: "(of_int m :: rat) / 2 = of_int k + 1 / 2" by (simp add: k field_simps)
    have f: "\<lfloor>(of_int k :: rat) + 1 / 2\<rfloor> = k" by (rule floor_unique) simp_all
    have d: "m div 2 = k" using k by simp
    have e: "m mod 4 = 3 \<longleftrightarrow> odd k" using k by presburger
    show ?thesis
      using pos lt unfolding toUint8Clamp_def x f Let_def d e by simp
  qed
qed

lemma contrast_nat:
  fixes n :: nat
  shows "toUint8Clamp (min 255 (max 0 ((of_nat n - 128) * (3 / 2) + 128))) =
     (if n \<le> 42 then 0
      else if 213 \<le> n then 255
      else of_nat ((3 * n - 128) div 2 + (if (3 * n - 128) mod 4 = 3 then 1 else 0)))"
proof -
  let ?m = "3 * int n - 128"
  have cv: "((of_nat n :: rat) - 128) * (3 / 2) + 128 = of_int ?m / 2"
    by (simp add: field_simps)
  show ?thesis
  proof (cases "n \<le> 42")
    case True
    then have "(of_int ?m :: rat) / 2 \<le> 0" by simp
    then have "min 255 (max 0 ((of_int ?m :: rat) / 2)) = 0" by simp
    with True show ?thesis unfolding cv by (simp add: toUint8Clamp_def)
  next
    case low: False
    show ?thesis
    proof (cases "213 \<le> n")
      case True
      then have "255 \<le> (of_int ?m :: rat) / 2" by simp
      then have "min 255 (max 0 ((of_int ?m :: rat) / 2)) = 255" by simp
      with True low show ?thesis unfolding cv by (simp add: toUint8Clamp_def)
    next
      case False
      define q where "q = 3 * n - 128"
      have mq: "?m = int q" using low by (simp add: q_def)
      have m: "0 < int q" "int q < 510" using low False by (simp_all add: q_def)
      have mm: "min 255 (max 0 ((of_int (int q) :: rat) / 2)) = of_int (int q) / 2"
        using m by simp
      have dv: "int q div 2 = int (q div 2)" by (simp add: zdiv_int)
      have md: "int q mod 4 = 3 \<longleftrightarrow> q mod 4 = 3" by presburger
      have "toUint8Clamp (of_int (int q) / 2)
              = of_nat (q div 2 + (if q mod 4 = 3 then 1 else 0))"
        unfolding toUint8Clamp_half [OF m] dv md by simp
      then have "toUint8Clamp (min 255 (max 0 ((of_int ?m :: rat) / 2)))
              = of_nat ((3 * n - 128) div 2 + (if (3 * n - 128) mod 4 = 3 then 1 else 0))"
        unfolding mq mm by (simp only: q_def)
      with low False show ?thesis unfolding cv by simp
    qed
  qed
qed

lemma contrast_byte_closed:
  "contrast_byte v =
     (if unat v \<le> 42 then 0
      else if 213 \<le> unat v then 255
      else of_nat ((3 * unat v - 128) div 2 + (if (3 * unat v - 128) mod 4 = 3 then 1 else 0)))"
  unfolding contrast_byte_def contrast_value_def by (rule contrast_nat)


lemma contrast_channel_Some: "contrast_channel (Some v) = contrast_byte v"
  by (simp add: contrast_channel_def contrast_byte_def)

lemma increaseContrast_bytes:
  assumes "wf_image img"
  shows "increaseContrast img =
     Inr \<lparr>width = width img, height = height img,
          data = map (\<lambda>j. if j mod 4 = 3 then data img ! j else contrast_byte (data img ! j))
                     [0..<length (data img)]\<rparr>"
proof -
  have len: "length (data img) = 4 * (width img * height img)"
    using assms by (simp add: wf_image_def)
  have "pixel_byte (\<lambda>i. contrast_channel (rd (data img) i))
                   (\<lambda>i. contrast_channel (rd (data img) (i + 1)))
                   (\<lambda>i. contrast_channel (rd (data img) (i + 2)))
                   (\<lambda>i. store_undef (rd (data img) (i + 3))) j
        = (if j mod 4 = 3 then data img ! j else contrast_byte (data img ! j))"
    if "j < length (data img)" for j
  proof (cases "j mod 4 = 3")
    case True
    with that show ?thesis by (simp add: alpha_byte)
  next
    case False
    with that show ?thesis
      using colour_byte [of j "data img" contrast_channel] by (simp add: contrast_channel_Some)
  qed
  then show ?thesis
    unfolding increaseContrast_pixels [OF assms] len by simp
qed

lemma wf_flat_pixel: "wf_image flat_pixel"
  by (simp add: wf_image_def flat_pixel_def)

lemma increaseContrast_flat_pixel:
  "increaseContrast flat_pixel = Inr \<lparr>width = 1, height = 1, data = [86, 86, 86, 100]\<rparr>"
  unfolding flat_pixel_def by code_simp

text \<open>
  Claim C4, amended. \<open>increaseContrast\<close> does not look at the minimum and maximum of the
  frame. It keeps the dimensions and the alpha bytes and maps every colour byte \<open>v\<close>, by
  itself, to \<open>(v - 128) * 1.5 + 128\<close> clamped to 0..255 and rounded to the nearest integer
  (a tie to the even one): 0 up to 42, 255 from 213 on, and in between half of
  \<open>3 * v - 128\<close>.
\<close>

theorem increaseContrast_fixed_gain:
  assumes "wf_image img"
  shows "increaseContrast img =
           Inr \<lparr>width = width img, height = height img,
                data = map (\<lambda>j. if j mod 4 = 3 then data img ! j else contrast_byte (data img ! j))
                           [0..<length (data img)]\<rparr>
         \<and> contrast_byte v =
             (if unat v \<le> 42 then 0
              else if 213 \<le> unat v then 255
              else of_nat ((3 * unat v - 128) div 2 + (if (3 * unat v - 128) mod 4 = 3 then 1 else 0)))"
  using increaseContrast_bytes [OF assms] contrast_byte_closed by blast

theorem increaseContrast_fixed_gain_witness:
  "wf_image flat_pixel
   \<and> increaseContrast flat_pixel = Inr \<lparr>width = 1, height = 1, data = [86, 86, 86, 100]\<rparr>
   \<and> contrast_byte 100 = 86"
proof -
  have "contrast_byte 100 = 86"
    using increaseContrast_fixed_gain [OF wf_flat_pixel, of 100] by simp
  then show ?thesis
    using wf_flat_pixel increaseContrast_flat_pixel by simp
qed

text \<open>
  Claim C4 as stated fails: in \<open>flat_pixel\<close> the minimum and the maximum of the bytes are
  both 100, and the transform does not return the image unchanged.
\<close>

theorem increaseContrast_changes_flat_image:
  "set (data flat_pixel) = {100}
   \<and> increaseContrast flat_pixel = Inr \<lparr>width = 1, height = 1, data = [86, 86, 86, 100]\<rparr>
   \<and> increaseContrast flat_pixel \<noteq> Inr flat_pixel"
proof -
  have "set (data flat_pixel) = {100}" by (simp add: flat_pixel_def)
  moreover have "Inr \<lparr>width = 1, height = 1, data = [86, 86, 86, 100]\<rparr> \<noteq> (Inr flat_pixel :: js_error + image)"
    by (simp add: flat_pixel_def)
  ultimately show ?thesis using increaseContrast_flat_pixel by simp
qed

subsection \<open>The renderings of the two-pixel image\<close>

lemma threshold_value_cases: "threshold_value g t = 0 \<or> threshold_value g t = 255"
  by (simp add: threshold_value_def split: option.split)

lemma increaseContrast_two_pixels: "increaseContrast two_pixels = Inr two_pixels_contrast"
  unfolding two_pixels_def two_pixels_contrast_def by code_simp

lemma convertToGrayscale_two_pixels: "convertToGrayscale luminance_exact two_pixels = Inr two_pixels"
  unfolding convertToGrayscale_pixels [OF wf_two_pixels]
  by (simp add: two_pixels_def upt_rec pixel_byte_def gray_at_def rd_def store_nat_def
      store_undef_def luminance_exact_def)

lemma resizeImage_two_pixels: "resizeImage two_pixels (1 / 2) = Inr two_pixels_half"
  unfolding two_pixels_def two_pixels_half_def by code_simp

lemma two_pixels_threshold:
  "\<exists>t. applyThreshold luminance_exact two_pixels = Inr t \<and> t \<noteq> two_pixels"
proof -
  let ?v = "threshold_value (gray_at luminance_exact (data two_pixels) 0)
              (threshold_of luminance_exact (data two_pixels))"
  let ?t = "\<lparr>width = width two_pixels, height = height two_pixels,
          data = map (pixel_byte (\<lambda>i. threshold_value (gray_at luminance_exact (data two_pixels) i) (threshold_of luminance_exact (data two_pixels)))
                                 (\<lambda>i. threshold_value (gray_at luminance_exact (data two_pixels) i) (threshold_of luminance_exact (data two_pixels)))
                                 (\<lambda>i. threshold_value (gray_at luminance_exact (data two_pixels) i) (threshold_of luminance_exact (data two_pixels)))
                                 (\<lambda>i. store_undef (rd (data two_pixels) (i + 3))))
                     [0..<4 * (width two_pixels * height two_pixels)]\<rparr>"
  have "data ?t ! 0 = ?v"
    by (simp add: two_pixels_def pixel_byte_def upt_rec)
  moreover have "data two_pixels ! 0 = 100" by (simp add: two_pixels_def)
  moreover have "?v = 0 \<or> ?v = 255" by (rule threshold_value_cases)
  ultimately have ne: "data ?t ! 0 \<noteq> data two_pixels ! 0" by auto
  have "?t \<noteq> two_pixels"
  proof
    assume "?t = two_pixels"
    then have "data ?t = data two_pixels" by (rule arg_cong)
    with ne show False by simp
  qed
  then show ?thesis using applyThreshold_pixels [OF wf_two_pixels, of luminance_exact] by blast
qed


lemma two_pixels_renderings:
  "\<exists>t. t \<noteq> two_pixels \<and>
     preprocessImage luminance_exact two_pixels =
       [two_pixels_contrast, two_pixels_contrast, t, two_pixels_half]"
proof -
  obtain t where t: "applyThreshold luminance_exact two_pixels = Inr t" "t \<noteq> two_pixels"
    using two_pixels_threshold by blast
  show ?thesis
    using t by (simp add: preprocessImage_def increaseContrast_two_pixels
        convertToGrayscale_two_pixels resizeImage_two_pixels)
qed

subsection \<open>A run that returns duplicates\<close>

text \<open>
  Claim C3. The run on \<open>two_pixels\<close> returns the two results of the remote decoder, which
  have the same data string: the returned sequence is not free of duplicates, although
  the deduplication step would have removed the second entry.
\<close>

theorem detectQRCodes_returns_duplicates:
  "fst (detectQRCodes jsQR_blind goQR_twins luminance_exact two_pixels) = [twin, twin]
   \<and> \<not> distinct (map qdata (fst (detectQRCodes jsQR_blind goQR_twins luminance_exact two_pixels)))
   \<and> removeDuplicates [twin, twin] = [twin]"
proof -
  obtain t where t: "t \<noteq> two_pixels"
    and ps: "preprocessImage luminance_exact two_pixels =
       [two_pixels_contrast, two_pixels_contrast, t, two_pixels_half]"
    using two_pixels_renderings by blast
  have other: "remote_found goQR_twins p = []" if "p \<noteq> two_pixels" for p
    using that by (simp add: remote_found_def goQR_twins_def)
  have c: "two_pixels_contrast \<noteq> two_pixels" and r: "two_pixels_half \<noteq> two_pixels"
    by (simp_all add: two_pixels_def two_pixels_contrast_def two_pixels_half_def)
  have loop: "fst (preprocessed_loop jsQR_blind goQR_twins (preprocessImage luminance_exact two_pixels)) = []"
    unfolding ps by (simp add: jsQR_blind_def other [OF c] other [OF r] other [OF t])
  have found: "remote_found goQR_twins two_pixels = [twin, twin]"
    by (simp add: remote_found_def goQR_twins_def)
  have run: "fst (detectQRCodes jsQR_blind goQR_twins luminance_exact two_pixels) = [twin, twin]"
    using detectQRCodes_early_return [of jsQR_blind two_pixels goQR_twins luminance_exact] loop found
    by (simp add: jsQR_blind_def)
  have dedup: "removeDuplicates [twin, twin] = [twin]"
    by (simp add: removeDuplicates_def)
  show ?thesis unfolding run using dedup by simp
qed

section \<open>Properties of the matcher\<close>

lemma rmatch_split:
  "st \<in> set (rmatch ic r (b, s)) \<Longrightarrow> \<exists>m. s = m @ snd st \<and> fst st = rev m @ b"
proof (induction r arbitrary: b s st)
  case Eps
  then show ?case by simp
next
  case (Chr c)
  then show ?case by (cases s) (auto split: if_splits)
next
  case (Cls items)
  then show ?case by (cases s) (auto split: if_splits)
next
  case (NCls items)
  then show ?case by (cases s) (auto split: if_splits)
next
  case (Seq r1 r2)
  from Seq.prems obtain st1 where st1: "st1 \<in> set (rmatch ic r1 (b, s))"
    and st: "st \<in> set (rmatch ic r2 st1)" by auto
  from Seq.IH(1) [OF st1] obtain m1 where m1: "s = m1 @ snd st1" "fst st1 = rev m1 @ b" by blast
  from st have "st \<in> set (rmatch ic r2 (fst st1, snd st1))" by simp
  from Seq.IH(2) [OF this] obtain m2 where m2: "snd st1 = m2 @ snd st" "fst st = rev m2 @ fst st1"
    by blast
  have "s = (m1 @ m2) @ snd st \<and> fst st = rev (m1 @ m2) @ b" using m1 m2 by simp
  then show ?case by blast
next
  case (Alt r1 r2)
  then show ?case by auto
next
  case (Star r)
  from Star.prems show ?case
  proof (induction "length s" arbitrary: b s st rule: less_induct)
    case less
    from less.prems have "st = (b, s) \<or>
        (\<exists>st1 \<in> set (rmatch ic r (b, s)). length (snd st1) < length s \<and> st \<in> set (rmatch ic (Star r) st1))"
      by (auto split: if_splits)
    then show ?case
    proof
      assume "st = (b, s)"
      then show ?thesis by simp
    next
      assume "\<exists>st1 \<in> set (rmatch ic r (b, s)). length (snd st1) < length s \<and> st \<in> set (rmatch ic (Star r) st1)"
      then obtain st1 where st1: "st1 \<in> set (rmatch ic r (b, s))" and sh: "length (snd st1) < length s"
        and st: "st \<in> set (rmatch ic (Star r) st1)" by blast
      from Star.IH [OF st1] obtain m1 where m1: "s = m1 @ snd st1" "fst st1 = rev m1 @ b" by blast
      from st have "st \<in> set (rmatch ic (Star r) (fst st1, snd st1))" by simp
      from less.hyps [OF sh this] obtain m2 where m2: "snd st1 = m2 @ snd st" "fst st = rev m2 @ fst st1"
        by blast
      have "s = (m1 @ m2) @ snd st \<and> fst st = rev (m1 @ m2) @ b" using m1 m2 by simp
      then show ?thesis by blast
    qed
  qed
next
  case Bol
  then show ?case by (auto split: if_splits)
next
  case Eol
  then show ?case by (auto split: if_splits)
next
  case WordB
  then show ?case by (auto split: if_splits)
qed

lemma match_first_Bol:
  assumes "match_first ic (Seq Bol r) s = Some m"
  shows "\<exists>st \<in> set (rmatch ic r ([], s)). fst st = rev m \<and> s = m @ snd st"
proof -
  have sf: "search_from ic (Seq Bol r) [] s \<noteq> None" using assms by (auto simp: match_first_def)
  show ?thesis
  proof (cases "rmatch ic r ([], s)")
    case Nil
    then have "search_from ic (Seq Bol r) [] s = None"
      by (cases s) (simp_all add: search_from_Bol_later)
    with sf show ?thesis by simp
  next
    case (Cons st rest)
    then have mem: "st \<in> set (rmatch ic r ([], s))" by simp
    from rmatch_split [OF mem] obtain m' where m': "s = m' @ snd st" "fst st = rev m'" by auto
    have "length s - length (snd st) = length m'" using m'(1)
      by (metis add_diff_cancel_right' length_append)
    then have tk: "take (length s - length (snd st)) s = m'" using m'(1) by (metis append_eq_conv_conj)
    have "match_first ic (Seq Bol r) s = Some m'"
      using Cons tk by (cases s) (simp_all add: match_first_def)
    with assms have "m = m'" by simp
    with m' mem show ?thesis by auto
  qed
qed


lemma post_weaken:
  "post ic r Q P \<Longrightarrow> (\<And>b. Q' b \<Longrightarrow> Q b) \<Longrightarrow> (\<And>b. P b \<Longrightarrow> P' b) \<Longrightarrow> post ic r Q' P'"
  unfolding post_def by blast

lemma post_Eps: "post ic Eps P P"
  by (simp add: post_def)

lemma post_Cls:
  "(\<And>c. cls_match ic items c \<Longrightarrow> is_alpha c) \<Longrightarrow> post ic (Cls items) Q ends_alpha"
  unfolding post_def ends_alpha_def
proof (intro allI impI)
  fix b s st
  assume cl: "\<And>c. cls_match ic items c \<Longrightarrow> is_alpha c"
    and st: "st \<in> set (rmatch ic (Cls items) (b, s))"
  then show "fst st \<noteq> [] \<and> is_alpha (hd (fst st))"
    by (cases s) (auto split: if_splits)
qed

lemma post_Seq: "post ic r1 Q M \<Longrightarrow> post ic r2 M P \<Longrightarrow> post ic (Seq r1 r2) Q P"
  unfolding post_def
proof (intro allI impI)
  fix b s st
  assume 1: "\<forall>b s st. Q b \<longrightarrow> st \<in> set (rmatch ic r1 (b, s)) \<longrightarrow> M (fst st)"
    and 2: "\<forall>b s st. M b \<longrightarrow> st \<in> set (rmatch ic r2 (b, s)) \<longrightarrow> P (fst st)"
    and q: "Q b" and st: "st \<in> set (rmatch ic (Seq r1 r2) (b, s))"
  from st obtain st1 where st1: "st1 \<in> set (rmatch ic r1 (b, s))"
    and st2: "st \<in> set (rmatch ic r2 (fst st1, snd st1))" by auto
  from 1 q st1 have "M (fst st1)" by blast
  with 2 st2 show "P (fst st)" by blast
qed

lemma post_Alt: "post ic r1 Q P \<Longrightarrow> post ic r2 Q P \<Longrightarrow> post ic (Alt r1 r2) Q P"
  unfolding post_def
proof (intro allI impI)
  fix b s st
  assume 1: "\<forall>b s st. Q b \<longrightarrow> st \<in> set (rmatch ic r1 (b, s)) \<longrightarrow> P (fst st)"
    and 2: "\<forall>b s st. Q b \<longrightarrow> st \<in> set (rmatch ic r2 (b, s)) \<longrightarrow> P (fst st)"
    and q: "Q b" and st: "st \<in> set (rmatch ic (Alt r1 r2) (b, s))"
  from st have "st \<in> set (rmatch ic r1 (b, s)) \<or> st \<in> set (rmatch ic r2 (b, s))" by simp
  with 1 2 q show "P (fst st)" by blast
qed

lemma post_Star:
  assumes "post ic r P P"
  shows "post ic (Star r) P P"
  unfolding post_def
proof (intro allI impI)
  fix b s st
  assume "P b" and "st \<in> set (rmatch ic (Star r) (b, s))"
  then show "P (fst st)"
  proof (induction "length s" arbitrary: b s rule: less_induct)
    case less
    from less.prems(2) have "st = (b, s) \<or>
        (\<exists>st1 \<in> set (rmatch ic r (b, s)). length (snd st1) < length s \<and> st \<in> set (rmatch ic (Star r) st1))"
      by (auto split: if_splits)
    then show ?case
    proof
      assume "st = (b, s)"
      with less.prems(1) show ?thesis by simp
    next
      assume "\<exists>st1 \<in> set (rmatch ic r (b, s)). length (snd st1) < length s \<and> st \<in> set (rmatch ic (Star r) st1)"
      then obtain st1 where st1: "st1 \<in> set (rmatch ic r (b, s))" and sh: "length (snd st1) < length s"
        and st: "st \<in> set (rmatch ic (Star r) (fst st1, snd st1))" by auto
      from assms less.prems(1) st1 have "P (fst st1)" unfolding post_def by blast
      from less.hyps [OF sh this st] show ?thesis .
    qed
  qed
qed

lemma post_Plus: "post ic r Q P \<Longrightarrow> post ic r P P \<Longrightarrow> post ic (Plus r) Q P"
  unfolding Plus_def by (rule post_Seq [OF _ post_Star])

lemma post_Opt: "post ic r P P \<Longrightarrow> post ic (Opt r) P P"
  unfolding Opt_def by (rule post_Alt [OF _ post_Eps])

lemma post_any: "post ic r Q (\<lambda>b. True)"
  by (simp add: post_def)


lemma seq_nonempty_mono:
  assumes "\<And>st. rmatch ic r2 st \<noteq> [] \<Longrightarrow> rmatch ic r2' st \<noteq> []"
    and "rmatch ic (Seq r1 r2) st \<noteq> []"
  shows "rmatch ic (Seq r1 r2') st \<noteq> []"
proof -
  obtain b s where st: "st = (b, s)" by (cases st)
  from assms(2) obtain x where x: "x \<in> set (rmatch ic r1 (b, s))" "rmatch ic r2 x \<noteq> []"
    unfolding st by auto
  from assms(1) [OF x(2)] have "rmatch ic r2' x \<noteq> []" .
  with x(1) have "\<exists>y \<in> set (rmatch ic r1 (b, s)). rmatch ic r2' y \<noteq> []" by blast
  then show ?thesis unfolding st by simp
qed

lemma seq_nonempty_fst: "rmatch ic (Seq r1 r2) st \<noteq> [] \<Longrightarrow> rmatch ic r1 st \<noteq> []"
  by (cases st) auto

section \<open>The name field\<close>

lemma alpha_not_ws: "is_alpha c \<Longrightarrow> \<not> is_ws c"
  by (auto simp: is_alpha_def is_upper_def is_lower_def is_ws_def)

lemma trim_id:
  assumes "m \<noteq> []" and "\<not> is_ws (hd m)" and "\<not> is_ws (last m)"
  shows "trim m = m"
proof -
  have 1: "dropWhile is_ws m = m" using assms(1,2) by (cases m) simp_all
  have "rev m \<noteq> []" "\<not> is_ws (hd (rev m))" using assms(1,3) by (simp_all add: hd_rev)
  then have 2: "dropWhile is_ws (rev m) = rev m" by (cases "rev m") simp_all
  show ?thesis by (simp add: trim_def 1 2)
qed

lemma cls_upper: "cls_match False [Range CHR ''A'' CHR ''Z''] c \<longleftrightarrow> is_upper c"
  by (simp add: cls_match_def in_range_def is_upper_def code_def)

lemma cls_lower: "cls_match False [Range CHR ''a'' CHR ''z''] c \<longleftrightarrow> is_lower c"
  by (simp add: cls_match_def in_range_def is_lower_def code_def)

lemma post_upper: "post False upper_c Q ends_alpha"
  unfolding upper_c_def by (rule post_Cls) (simp add: cls_upper is_alpha_def)

lemma post_lower: "post False lower_c Q ends_alpha"
  unfolding lower_c_def by (rule post_Cls) (simp add: cls_lower is_alpha_def)

lemma post_lowers: "post False (Plus lower_c) Q ends_alpha"
  by (rule post_Plus [OF post_lower post_lower])

text \<open>The two name patterns without their anchor.\<close>

lemma namePatterns_unfolded:
  "namePatterns =
     [Seq Bol (Seq upper_c (Seq (Plus lower_c) (Seq ws_run (Seq upper_c (Seq (Plus lower_c)
         (Opt (Seq ws_run (Seq upper_c (Plus lower_c))))))))),
      Seq Bol (Seq upper_c (Seq (Plus lower_c) (Seq ws_run upper_c)))]"
  by (simp add: namePatterns_def cap_word_def)

lemma post_name_long:
  "post False (Seq upper_c (Seq (Plus lower_c) (Seq ws_run (Seq upper_c (Seq (Plus lower_c)
         (Opt (Seq ws_run (Seq upper_c (Plus lower_c)))))))))
     (\<lambda>b. True) ends_alpha"
proof -
  have x: "post False (Seq ws_run (Seq upper_c (Plus lower_c))) ends_alpha ends_alpha"
    by (rule post_Seq [OF post_any post_Seq [OF post_any post_lowers]])
  have "post False (Seq (Plus lower_c) (Opt (Seq ws_run (Seq upper_c (Plus lower_c)))))
          (\<lambda>b. True) ends_alpha"
    by (rule post_Seq [OF post_lowers post_Opt [OF x]])
  then show ?thesis
    by (rule post_Seq [OF post_any post_Seq [OF post_any post_Seq [OF post_any
          post_Seq [OF post_any]]]])
qed

lemma post_name_short:
  "post False (Seq upper_c (Seq (Plus lower_c) (Seq ws_run upper_c))) (\<lambda>b. True) ends_alpha"
  by (intro post_Seq [OF post_any] post_upper)

lemma starts_upper:
  "st \<in> set (rmatch False (Seq upper_c r) ([], s)) \<Longrightarrow> s \<noteq> [] \<and> is_upper (hd s)"
  by (cases s) (auto simp: upper_c_def cls_upper split: if_splits)

lemma anchored_match_shape:
  assumes m: "match_first False (Seq Bol (Seq upper_c r)) c = Some m"
    and p: "post False (Seq upper_c r) (\<lambda>b. True) ends_alpha"
  shows "startsWith c m \<and> m \<noteq> [] \<and> is_upper (hd m) \<and> is_alpha (last m)"
proof -
  from match_first_Bol [OF m] obtain st where st: "st \<in> set (rmatch False (Seq upper_c r) ([], c))"
    and f: "fst st = rev m" and c: "c = m @ snd st" by blast
  from p st have "ends_alpha (fst st)" unfolding post_def by blast
  then have ne: "m \<noteq> []" and la: "is_alpha (last m)"
    unfolding f ends_alpha_def by (simp_all add: hd_rev)
  from starts_upper [OF st] have "is_upper (hd c)" by simp
  with c ne have "is_upper (hd m)" by (metis hd_append2)
  moreover have "startsWith c m" using c by (simp add: startsWith_def)
  ultimately show ?thesis using ne la by simp
qed

lemma name_pattern_shape:
  assumes "p \<in> set namePatterns" and "match_first False p c = Some m"
  shows "startsWith c m \<and> m \<noteq> [] \<and> is_upper (hd m) \<and> is_alpha (last m)"
  using assms anchored_match_shape [OF _ post_name_long] anchored_match_shape [OF _ post_name_short]
  unfolding namePatterns_unfolded by auto

lemma name_loop_found:
  "name_loop ps c \<noteq> [] \<Longrightarrow>
   \<exists>p \<in> set ps. \<exists>m. match_first False p c = Some m \<and> name_loop ps c = trim m
                     \<and> valid_name (trim m)"
proof (induction ps)
  case Nil
  then show ?case by simp
next
  case (Cons p ps)
  show ?case
  proof (cases "match_first False p c")
    case None
    with Cons show ?thesis by simp
  next
    case (Some m)
    show ?thesis
    proof (cases "valid_name (trim m)")
      case True
      with Some show ?thesis by (simp add: Let_def)
    next
      case False
      with Some Cons show ?thesis by (simp add: Let_def)
    qed
  qed
qed

lemma name_pattern_start:
  assumes "p \<in> set namePatterns" and "match_first False p c = Some m"
  shows "regex_test False (last namePatterns) c"
proof -
  let ?short = "Seq upper_c (Seq (Plus lower_c) (Seq ws_run upper_c))"
  let ?long = "Seq upper_c (Seq (Plus lower_c) (Seq ws_run (Seq upper_c (Seq (Plus lower_c)
         (Opt (Seq ws_run (Seq upper_c (Plus lower_c))))))))"
  have t: "regex_test False p c" using assms(2) by (auto simp: regex_test_def match_first_def)
  have imp: "rmatch False ?long st \<noteq> [] \<Longrightarrow> rmatch False ?short st \<noteq> []" for st
    by (erule seq_nonempty_mono [rotated], erule seq_nonempty_mono [rotated],
        erule seq_nonempty_mono [rotated], erule seq_nonempty_fst)
  from assms(1) have "p = Seq Bol ?long \<or> p = Seq Bol ?short"
    unfolding namePatterns_unfolded by simp
  then have "rmatch False ?short ([], c) \<noteq> []"
    using t imp [of "([], c)"] by (auto simp: regex_test_Bol)
  then show ?thesis
    unfolding namePatterns_unfolded by (simp add: regex_test_Bol del: rmatch.simps)
qed

text \<open>
  The shape of a name that is found: a prefix of the cleaned text that begins with a
  capital letter, ends with a letter and passes the validation; and none is found unless
  the cleaned text begins with a capitalised word, white space and a capital letter.
\<close>

lemma name_prefix_shape:
  "(name (extractTextInfoEnhanced text) = []
    \<or> (startsWith (cleanedText text) (name (extractTextInfoEnhanced text))
       \<and> valid_name (name (extractTextInfoEnhanced text))
       \<and> is_upper (hd (name (extractTextInfoEnhanced text)))
       \<and> is_alpha (last (name (extractTextInfoEnhanced text)))))
   \<and> (name (extractTextInfoEnhanced text) = []
      \<or> regex_test False (last namePatterns) (cleanedText text))"
proof (cases "name (extractTextInfoEnhanced text) = []")
  case True
  then show ?thesis by simp
next
  case False
  then have ne: "text \<noteq> []" by (auto simp: extractTextInfoEnhanced_def info0_def)
  then have n: "name (extractTextInfoEnhanced text) = name_loop namePatterns (cleanedText text)"
    by (simp add: extractTextInfoEnhanced_def Let_def)
  with False have "name_loop namePatterns (cleanedText text) \<noteq> []" by simp
  from name_loop_found [OF this] obtain p m where p: "p \<in> set namePatterns"
    and m: "match_first False p (cleanedText text) = Some m"
    and t: "name_loop namePatterns (cleanedText text) = trim m" and v: "valid_name (trim m)"
    by blast
  from name_pattern_shape [OF p m] have sh: "startsWith (cleanedText text) m" "m \<noteq> []"
    "is_upper (hd m)" "is_alpha (last m)" by simp_all
  have "\<not> is_ws (hd m)" "\<not> is_ws (last m)"
    using sh(3,4) alpha_not_ws by (auto simp: is_alpha_def)
  then have tm: "trim m = m" using sh(2) by (rule trim_id [rotated])
  have "regex_test False (last namePatterns) (cleanedText text)"
    by (rule name_pattern_start [OF p m])
  then show ?thesis
    unfolding n t tm using sh v tm by simp
qed

lemma cleanedText_split_name_text: "cleanedText split_name_text = ''John Smith''"
  unfolding split_name_text_def by code_simp

lemma name_split_name_text: "name (extractTextInfoEnhanced split_name_text) = ''John Smith''"
proof -
  have "name_loop namePatterns ''John Smith'' = ''John Smith''" by code_simp
  moreover have "split_name_text \<noteq> []" by (simp add: split_name_text_def)
  ultimately show ?thesis
    by (simp add: extractTextInfoEnhanced_def Let_def cleanedText_split_name_text)
qed

text \<open>
  Claim C8 as stated fails in both directions. In \<open>acme_text\<close> the second line is the first
  one that matches the pattern, and the name field is empty, because the cleaned text
  begins with \<open>ACME\<close>. In \<open>split_name_text\<close> no line matches, and the name field is
  \<open>John Smith\<close>, read across the line break.
\<close>

theorem name_is_not_read_by_lines:
  "spec_name acme_text = ''John Smith''
   \<and> name (extractTextInfoEnhanced acme_text) = []
   \<and> spec_name split_name_text = []
   \<and> name (extractTextInfoEnhanced split_name_text) = ''John Smith''"
proof -
  have 1: "spec_name acme_text = ''John Smith''" unfolding acme_text_def by code_simp
  have c: "cleanedText acme_text = ''ACME John Smith''" unfolding acme_text_def by code_simp
  have l: "name_loop namePatterns ''ACME John Smith'' = []" by code_simp
  have "acme_text \<noteq> []" by (simp add: acme_text_def)
  then have 2: "name (extractTextInfoEnhanced acme_text) = []"
    by (simp add: extractTextInfoEnhanced_def Let_def c l)
  have 3: "spec_name split_name_text = []" unfolding split_name_text_def by code_simp
  show ?thesis using 1 2 3 name_split_name_text by simp
qed

subsection \<open>The four renderings\<close>

lemma math_round_half_pos: "0 < n \<Longrightarrow> 0 < math_round (of_nat n * (1 / 2))"
proof -
  assume "0 < n"
  then have "(1::rat) \<le> of_nat n" by simp
  then have "(1::rat) \<le> of_nat n * (1 / 2) + 1 / 2" by simp
  then have "1 \<le> \<lfloor>(of_nat n :: rat) * (1 / 2) + 1 / 2\<rfloor>" by (simp add: le_floor_iff)
  then show ?thesis by (simp add: math_round_def)
qed

lemma resizeImage_half_returns:
  assumes "wf_image img"
  shows "\<exists>r. resizeImage img (1 / 2) = Inr r"
proof -
  have "0 < width img" "0 < height img" using assms by (simp_all add: wf_image_def)
  then have "math_round (of_nat (width img) * (1 / 2)) \<noteq> 0"
    "math_round (of_nat (height img) * (1 / 2)) \<noteq> 0"
    using math_round_half_pos by blast+
  then show ?thesis
    unfolding resizeImage_def newImageData_def Let_def
    by (simp only: simp_thms if_False sum.case) blast
qed

text \<open>
  For an image as the browser builds it no transform throws, and \<open>preprocessImage\<close>
  returns four renderings in this order: contrast, grayscale with contrast, threshold,
  half size.
\<close>

lemma preprocessImage_four:
  assumes "wf_image img"
  shows "\<exists>c g gc t r. increaseContrast img = Inr c \<and> convertToGrayscale lum img = Inr g
           \<and> increaseContrast g = Inr gc \<and> applyThreshold lum img = Inr t
           \<and> resizeImage img (1 / 2) = Inr r
           \<and> preprocessImage lum img = [c, gc, t, r]"
proof -
  obtain c where c: "increaseContrast img = Inr c"
    using increaseContrast_pixels [OF assms] by blast
  obtain g where g: "convertToGrayscale lum img = Inr g" and wg: "wf_image g"
    using convertToGrayscale_pixels [OF assms, of lum] assms by (auto simp: wf_image_def mult.assoc)
  obtain gc where gc: "increaseContrast g = Inr gc"
    using increaseContrast_pixels [OF wg] by blast
  obtain t where t: "applyThreshold lum img = Inr t"
    using applyThreshold_pixels [OF assms, of lum] by blast
  obtain r where r: "resizeImage img (1 / 2) = Inr r"
    using resizeImage_half_returns [OF assms] by blast
  show ?thesis by (simp add: preprocessImage_def c g gc t r)
qed

section \<open>Properties of the remote decoder wrapper\<close>

lemma detectWithGoQRAPI_no_throw: "detectWithGoQRAPI gt0 env \<noteq> Throw e"
  by (simp add: detectWithGoQRAPI_def split: completion.split)

lemma get_prop_throws: "(\<exists>e. get_prop v k = Inl e) \<longleftrightarrow> v = JNull"
  by (cases v) simp_all

lemma qr_entry_null: "qr_entry JNull = Inl TypeError"
  by (simp add: qr_entry_def)

lemma qr_entry_other: "qr \<noteq> JNull \<Longrightarrow> qr_entry qr = Inr (entry_of qr)"
  by (cases qr) (simp_all add: qr_entry_def entry_of_def prop_or_undef_def)

lemma map_entries_clean: "JNull \<notin> set xs \<Longrightarrow> map_entries xs = Inr (map entry_of xs)"
proof (induction xs)
  case Nil
  show ?case by simp
next
  case (Cons x xs)
  then have "x \<noteq> JNull" and "map_entries xs = Inr (map entry_of xs)" by auto
  then show ?case by (simp add: qr_entry_other)
qed

lemma map_entries_null: "JNull \<in> set xs \<Longrightarrow> \<exists>e. map_entries xs = Inl e"
proof (induction xs)
  case Nil
  then show ?case by simp
next
  case (Cons x xs)
  show ?case
  proof (cases "x = JNull")
    case True
    then show ?thesis by (simp add: qr_entry_null)
  next
    case False
    with Cons obtain e where "map_entries xs = Inl e" by auto
    with False show ?thesis by (simp add: qr_entry_other)
  qed
qed

text \<open>Whatever is thrown while the body is read ends in the empty result; what is
  returned otherwise are the entries of the accepted elements.\<close>

lemma parse_response_entries:
  "(case parse_response gt0 result of Inl e \<Rightarrow> [] | Inr rs \<Rightarrow> rs)
     = map entry_of (accepted_entries result)"
proof (cases result)
  case (JObj kvs)
  show ?thesis
  proof (cases "truthy (map_of kvs ''success'')")
    case False
    with JObj show ?thesis by (simp add: parse_response_def accepted_entries_def)
  next
    case True
    show ?thesis
    proof (cases "map_of kvs ''qr_codes''")
      case None
      with JObj True show ?thesis by (simp add: parse_response_def accepted_entries_def)
    next
      case (Some q)
      show ?thesis
      proof (cases q)
        case JNull
        with JObj True Some show ?thesis by (simp add: parse_response_def accepted_entries_def)
      next
        case (JBool b)
        with JObj True Some show ?thesis
          by (simp add: parse_response_def accepted_entries_def greater_zero_def)
      next
        case (JNum n)
        with JObj True Some show ?thesis
          by (simp add: parse_response_def accepted_entries_def greater_zero_def)
      next
        case (JStr s)
        with JObj True Some show ?thesis
          by (simp add: parse_response_def accepted_entries_def greater_zero_def call_map_def)
      next
        case (JArr xs)
        show ?thesis
        proof (cases "JNull \<in> set xs")
          case True
          then obtain e where "map_entries xs = Inl e" using map_entries_null by blast
          with JObj \<open>truthy (map_of kvs ''success'')\<close> Some JArr True show ?thesis
            by (simp add: parse_response_def accepted_entries_def greater_zero_def call_map_def)
        next
          case False
          then have "map_entries xs = Inr (map entry_of xs)" by (rule map_entries_clean)
          with JObj \<open>truthy (map_of kvs ''success'')\<close> Some JArr False show ?thesis
            by (cases xs) (simp_all add: parse_response_def accepted_entries_def greater_zero_def
                call_map_def)
        qed
      next
        case (JObj kvs')
        with \<open>result = JObj kvs\<close> True Some show ?thesis
          by (simp add: parse_response_def accepted_entries_def call_map_def)
      qed
    qed
  qed
qed (simp_all add: parse_response_def accepted_entries_def)

lemma detectWithGoQRAPI_answered:
  "detectWithGoQRAPI gt0 (Fetched (Responded status body)) =
     Normal (if response_ok status
             then (case body of None \<Rightarrow> [] | Some result \<Rightarrow> map entry_of (accepted_entries result))
             else [])"
proof (cases "response_ok status")
  case False
  then show ?thesis by (simp add: detectWithGoQRAPI_def goqr_try_def)
next
  case True
  show ?thesis
  proof (cases body)
    case None
    with True show ?thesis by (simp add: detectWithGoQRAPI_def goqr_try_def)
  next
    case (Some result)
    with True show ?thesis
      using parse_response_entries [of gt0 result]
      by (cases "parse_response gt0 result") (simp_all add: detectWithGoQRAPI_def goqr_try_def)
  qed
qed

text \<open>
  Claim C5, amended. The wrapper never completes with an exception. It returns the empty
  sequence when the request is rejected, when the status is outside 200..299, when the
  body is not JSON, and for every JSON body but one: an object with a truthy \<open>success\<close>
  and an array \<open>qr_codes\<close> without \<open>null\<close>, for which it returns one entry for each element
  of the array, whatever the element is. The source sets no timeout of its own: a timeout
  reaches the wrapper only as a rejected request, and while the request is unanswered the
  wrapper does not return.
\<close>

theorem detectWithGoQRAPI_outcomes:
  "(\<forall>e. detectWithGoQRAPI gt0 env \<noteq> Throw e)
   \<and> detectWithGoQRAPI gt0 NoContext = Normal []
   \<and> detectWithGoQRAPI gt0 (Fetched Rejected) = Normal []
   \<and> detectWithGoQRAPI gt0 (Fetched Unanswered) = NeverSettles
   \<and> detectWithGoQRAPI gt0 (Fetched (Responded status body)) =
       Normal (if response_ok status
               then (case body of
                       None \<Rightarrow> []
                     | Some result \<Rightarrow> map entry_of (accepted_entries result))
               else [])"
proof -
  have "detectWithGoQRAPI gt0 NoContext = Normal []"
    "detectWithGoQRAPI gt0 (Fetched Rejected) = Normal []"
    "detectWithGoQRAPI gt0 (Fetched Unanswered) = NeverSettles"
    by (simp_all add: detectWithGoQRAPI_def goqr_try_def)
  then show ?thesis
    using detectWithGoQRAPI_no_throw detectWithGoQRAPI_answered by blast
qed

text \<open>The failures that the claim names and that do end in the empty sequence, and some
  bodies of the wrong shape that do so too.\<close>

theorem detectWithGoQRAPI_outcomes_witness:
  "detectWithGoQRAPI (\<lambda>v. False) (Fetched Rejected) = Normal []
   \<and> detectWithGoQRAPI (\<lambda>v. False) (Fetched (Responded 503 (Some (JObj [])))) = Normal []
   \<and> detectWithGoQRAPI (\<lambda>v. False) (Fetched (Responded 200 None)) = Normal []
   \<and> detectWithGoQRAPI (\<lambda>v. False) (Fetched (Responded 200 (Some JNull))) = Normal []
   \<and> detectWithGoQRAPI (\<lambda>v. False) (Fetched (Responded 200 (Some (JObj [(''success'', JBool True),
        (''qr_codes'', JStr ''none'')])))) = Normal []
   \<and> detectWithGoQRAPI (\<lambda>v. False) (Fetched (Responded 200 (Some (JObj [(''success'', JBool True),
        (''qr_codes'', JArr [JNull])])))) = Normal []"
proof -
  have ok: "\<not> response_ok 503" "response_ok 200" by (simp_all add: response_ok_def)
  have a: "accepted_entries (JObj []) = []" "accepted_entries JNull = []"
    "accepted_entries (JObj [(''success'', JBool True), (''qr_codes'', JStr ''none'')]) = []"
    "accepted_entries (JObj [(''success'', JBool True), (''qr_codes'', JArr [JNull])]) = []"
    by (simp_all add: accepted_entries_def)
  show ?thesis
    using detectWithGoQRAPI_outcomes [of "\<lambda>v. False" NoContext 503 "Some (JObj [])"]
      detectWithGoQRAPI_outcomes [of "\<lambda>v. False" NoContext 200 None]
      detectWithGoQRAPI_outcomes [of "\<lambda>v. False" NoContext 200 "Some JNull"]
      detectWithGoQRAPI_outcomes [of "\<lambda>v. False" NoContext 200
        "Some (JObj [(''success'', JBool True), (''qr_codes'', JStr ''none'')])"]
      detectWithGoQRAPI_outcomes [of "\<lambda>v. False" NoContext 200
        "Some (JObj [(''success'', JBool True), (''qr_codes'', JArr [JNull])])"]
    by (simp add: ok a)
qed

text \<open>
  Claim C5 as stated fails. The body \<open>odd_body\<close> is malformed, its only entry being the
  number 5, and the wrapper returns a sequence of one entry with four undefined
  fields. An unanswered request, which a timeout would have ended, leaves the wrapper
  without a result.
\<close>

theorem detectWithGoQRAPI_malformed_not_empty:
  "\<not> spec_decode_result (JNum 5)
   \<and> detectWithGoQRAPI (\<lambda>v. False) (Fetched (Responded 200 (Some odd_body)))
       = Normal [\<lparr>a_data = None, a_type = None, a_location = None, a_method = None\<rparr>]
   \<and> detectWithGoQRAPI (\<lambda>v. False) (Fetched (Responded 200 (Some odd_body))) \<noteq> Normal []
   \<and> detectWithGoQRAPI (\<lambda>v. False) (Fetched Unanswered) = NeverSettles"
  by (simp add: spec_decode_result_def odd_body_def detectWithGoQRAPI_def goqr_try_def
      response_ok_def parse_response_def greater_zero_def call_map_def qr_entry_def)

section \<open>The name patterns as scanners\<close>

lemma cls_space: "cls_match False [Space] c \<longleftrightarrow> is_ws c"
  by (simp add: cls_match_def)

lemma match_first_anchored:
  "match_first ic (Seq Bol r) c = map_option (\<lambda>st. rev (fst st)) (first_of (rmatch ic r ([], c)))"
proof (cases "rmatch ic r ([], c)")
  case Nil
  then have "search_from ic (Seq Bol r) [] c = None"
    by (cases c) (simp_all add: search_from_Bol_later)
  with Nil show ?thesis by (simp add: match_first_def first_of_def)
next
  case (Cons st rest)
  then have "st \<in> set (rmatch ic r ([], c))" by simp
  from rmatch_split [OF this] obtain m where m: "c = m @ snd st" "fst st = rev m" by auto
  have "length c - length (snd st) = length m" using m(1)
    by (metis add_diff_cancel_right' length_append)
  then have "take (length c - length (snd st)) c = m" using m(1) by (metis append_eq_conv_conj)
  then have "match_first ic (Seq Bol r) c = Some m"
    using Cons by (cases c) (simp_all add: match_first_def)
  with Cons m show ?thesis by (simp add: first_of_def)
qed

lemma star_then:
  assumes "\<And>b x xs. cls_match ic items x \<Longrightarrow> rmatch ic r (b, x # xs) = []"
  shows "concat (map (rmatch ic r) (rmatch ic (Star (Cls items)) (b, s)))
         = rmatch ic r (rev (takeWhile (cls_match ic items) s) @ b, dropWhile (cls_match ic items) s)"
proof (induction s arbitrary: b)
  case Nil
  show ?case by simp
next
  case (Cons x xs)
  show ?case
  proof (cases "cls_match ic items x")
    case True
    with Cons [of "x # b"] assms [OF True, of b xs] show ?thesis by simp
  next
    case False
    then show ?thesis by simp
  qed
qed

lemma plus_then:
  assumes "\<And>b x xs. cls_match ic items x \<Longrightarrow> rmatch ic r (b, x # xs) = []"
  shows "rmatch ic (Seq (Plus (Cls items)) r) (b, s) =
     (case run_of (cls_match ic items) s of
        None \<Rightarrow> []
      | Some (w, rest) \<Rightarrow> rmatch ic r (rev w @ b, rest))"
proof (cases s)
  case Nil
  then show ?thesis by (simp add: Plus_def run_of_def)
next
  case (Cons x xs)
  show ?thesis
  proof (cases "cls_match ic items x")
    case True
    have "rmatch ic (Seq (Plus (Cls items)) r) (b, s)
            = concat (map (rmatch ic r) (rmatch ic (Star (Cls items)) (x # b, xs)))"
      using Cons True by (simp add: Plus_def del: rmatch.simps(7))
    also have "\<dots> = rmatch ic r (rev (takeWhile (cls_match ic items) xs) @ x # b,
                                  dropWhile (cls_match ic items) xs)"
      by (rule star_then [OF assms])
    finally show ?thesis using Cons True by (simp add: run_of_def)
  next
    case False
    with Cons show ?thesis by (simp add: Plus_def run_of_def)
  qed
qed

lemma cls_then:
  "rmatch ic (Seq (Cls items) r) (b, s) =
     (case one_of (cls_match ic items) s of
        None \<Rightarrow> []
      | Some (w, rest) \<Rightarrow> rmatch ic r (rev w @ b, rest))"
  by (cases s) (simp_all add: one_of_def)

lemma first_of_append: "first_of ys = Some y \<Longrightarrow> first_of (ys @ zs) = Some y"
  by (cases ys) (simp_all add: first_of_def)

lemma star_unfold:
  "cls_match ic items x \<Longrightarrow>
   rmatch ic (Star (Cls items)) (b, x # xs) = rmatch ic (Star (Cls items)) (x # b, xs) @ [(b, x # xs)]"
  by (subst rmatch.simps(7)) (simp del: rmatch.simps(7))

lemma star_first:
  "first_of (rmatch ic (Star (Cls items)) (b, s))
     = Some (rev (takeWhile (cls_match ic items) s) @ b, dropWhile (cls_match ic items) s)"
proof (induction s arbitrary: b)
  case Nil
  show ?case by (simp add: first_of_def)
next
  case (Cons x xs)
  show ?case
  proof (cases "cls_match ic items x")
    case True
    have "first_of (rmatch ic (Star (Cls items)) (x # b, xs) @ [(b, x # xs)])
            = Some (rev (takeWhile (cls_match ic items) xs) @ x # b, dropWhile (cls_match ic items) xs)"
      by (rule first_of_append [OF Cons])
    then show ?thesis
      unfolding star_unfold [OF True] using True by simp
  next
    case False
    then show ?thesis by (simp add: first_of_def)
  qed
qed

lemma plus_first:
  "first_of (rmatch ic (Plus (Cls items)) (b, s)) =
     (case run_of (cls_match ic items) s of
        None \<Rightarrow> None
      | Some (w, rest) \<Rightarrow> Some (rev w @ b, rest))"
proof (cases s)
  case Nil
  then show ?thesis by (simp add: Plus_def run_of_def first_of_def)
next
  case (Cons x xs)
  show ?thesis
  proof (cases "cls_match ic items x")
    case True
    have "rmatch ic (Plus (Cls items)) (b, s) = rmatch ic (Star (Cls items)) (x # b, xs)"
      using Cons True by (simp add: Plus_def del: rmatch.simps(7))
    then show ?thesis using Cons True star_first [of ic items "x # b" xs]
      by (simp add: run_of_def)
  next
    case False
    with Cons show ?thesis by (simp add: Plus_def run_of_def first_of_def)
  qed
qed


lemma first_of_Nil: "first_of [] = None"
  by (simp add: first_of_def)

lemma first_of_concat:
  "first_of ys = Some y \<Longrightarrow> f y \<noteq> [] \<Longrightarrow> first_of (concat (map f ys)) = first_of (f y)"
  by (cases ys; cases "f y") (simp_all add: first_of_def)

lemma first_of_concat_none: "first_of ys = None \<Longrightarrow> first_of (concat (map f ys)) = None"
  by (cases ys) (simp_all add: first_of_def)

lemma opt_first:
  "first_of (rmatch ic (Opt r) (b, s))
     = Some (case first_of (rmatch ic r (b, s)) of None \<Rightarrow> (b, s) | Some y \<Rightarrow> y)"
  by (cases "rmatch ic r (b, s)") (simp_all add: Opt_def first_of_def)

lemma opt_nonempty: "rmatch ic (Opt r) st \<noteq> []"
  by (cases st) (simp add: Opt_def)

lemma plus_opt_first:
  "first_of (rmatch ic (Seq (Plus (Cls items)) (Opt r)) (b, s)) =
     (case run_of (cls_match ic items) s of
        None \<Rightarrow> None
      | Some (w, rest) \<Rightarrow> first_of (rmatch ic (Opt r) (rev w @ b, rest)))"
proof (cases "run_of (cls_match ic items) s")
  case None
  then have "first_of (rmatch ic (Plus (Cls items)) (b, s)) = None" by (simp add: plus_first)
  then have "first_of (concat (map (rmatch ic (Opt r)) (rmatch ic (Plus (Cls items)) (b, s)))) = None"
    by (rule first_of_concat_none)
  with None show ?thesis by simp
next
  case (Some p)
  obtain w rest where p: "p = (w, rest)" by (cases p)
  have "first_of (rmatch ic (Plus (Cls items)) (b, s)) = Some (rev w @ b, rest)"
    using Some p by (simp add: plus_first)
  then have "first_of (concat (map (rmatch ic (Opt r)) (rmatch ic (Plus (Cls items)) (b, s))))
               = first_of (rmatch ic (Opt r) (rev w @ b, rest))"
    by (rule first_of_concat) (rule opt_nonempty)
  with Some p show ?thesis by simp
qed

lemma fun_upper: "cls_match False [Range CHR ''A'' CHR ''Z''] = is_upper"
  by (rule ext) (rule cls_upper)

lemma fun_lower: "cls_match False [Range CHR ''a'' CHR ''z''] = is_lower"
  by (rule ext) (rule cls_lower)

lemma fun_space: "cls_match False [Space] = is_ws"
  by (rule ext) (rule cls_space)

lemma lower_not_ws: "is_lower c \<Longrightarrow> \<not> is_ws c"
  using alpha_not_ws by (simp add: is_alpha_def)

lemma ws_not_upper: "is_ws c \<Longrightarrow> \<not> is_upper c"
  using alpha_not_ws by (auto simp: is_alpha_def)

lemma upper_fails: "\<not> is_upper x \<Longrightarrow> rmatch False (Seq upper_c r) (b, x # xs) = []"
  by (simp add: upper_c_def cls_upper)

lemma upper_alone_fails: "\<not> is_upper x \<Longrightarrow> rmatch False upper_c (b, x # xs) = []"
  by (simp add: upper_c_def cls_upper)

lemma ws_fails: "\<not> is_ws x \<Longrightarrow> rmatch False (Seq ws_run r) (b, x # xs) = []"
  by (simp add: ws_run_def Plus_def cls_space)

lemma ws_then:
  assumes "\<And>b x xs. is_ws x \<Longrightarrow> rmatch False r (b, x # xs) = []"
  shows "rmatch False (Seq ws_run r) (b, s) =
     (case run_of is_ws s of
        None \<Rightarrow> []
      | Some (w, rest) \<Rightarrow> rmatch False r (rev w @ b, rest))"
proof -
  have "rmatch False (Seq (Plus (Cls [Space])) r) (b, s) =
     (case run_of (cls_match False [Space]) s of
        None \<Rightarrow> []
      | Some (w, rest) \<Rightarrow> rmatch False r (rev w @ b, rest))"
    by (rule plus_then) (simp add: cls_space assms)
  then show ?thesis by (simp only: ws_run_def fun_space)
qed

lemma cap_then:
  assumes "\<And>b x xs. is_lower x \<Longrightarrow> rmatch False r (b, x # xs) = []"
  shows "rmatch False (Seq upper_c (Seq (Plus lower_c) r)) (b, s) =
     (case cap_word_at s of
        None \<Rightarrow> []
      | Some (w, rest) \<Rightarrow> rmatch False r (rev w @ b, rest))"
proof -
  have "rmatch False (Seq (Plus (Cls [Range CHR ''a'' CHR ''z''])) r) (b', s') =
     (case run_of (cls_match False [Range CHR ''a'' CHR ''z'']) s' of
        None \<Rightarrow> []
      | Some (w, rest) \<Rightarrow> rmatch False r (rev w @ b', rest))" for b' s'
    by (rule plus_then) (simp add: cls_lower assms)
  then have 1: "rmatch False (Seq (Plus lower_c) r) (b', s') =
     (case run_of is_lower s' of
        None \<Rightarrow> []
      | Some (w, rest) \<Rightarrow> rmatch False r (rev w @ b', rest))" for b' s'
    by (simp only: lower_c_def fun_lower)
  have 2: "rmatch False (Seq upper_c (Seq (Plus lower_c) r)) (b, s) =
     (case one_of is_upper s of
        None \<Rightarrow> []
      | Some (w, rest) \<Rightarrow> rmatch False (Seq (Plus lower_c) r) (rev w @ b, rest))"
    using cls_then [of False "[Range CHR ''A'' CHR ''Z'']"] unfolding upper_c_def fun_upper .
  show ?thesis
    unfolding 2 1 cap_word_at_def
    by (simp split: option.split prod.split del: rmatch.simps)
qed

lemma cap_first:
  "first_of (rmatch False (Seq upper_c (Plus lower_c)) (b, s)) =
     (case cap_word_at s of
        None \<Rightarrow> None
      | Some (w, rest) \<Rightarrow> Some (rev w @ b, rest))"
proof -
  have 1: "first_of (rmatch False (Plus lower_c) (b', s')) =
     (case run_of is_lower s' of
        None \<Rightarrow> None
      | Some (w, rest) \<Rightarrow> Some (rev w @ b', rest))" for b' s'
    using plus_first [of False "[Range CHR ''a'' CHR ''z'']"] unfolding lower_c_def fun_lower .
  have 2: "rmatch False (Seq upper_c (Plus lower_c)) (b, s) =
     (case one_of is_upper s of
        None \<Rightarrow> []
      | Some (w, rest) \<Rightarrow> rmatch False (Plus lower_c) (rev w @ b, rest))"
    using cls_then [of False "[Range CHR ''A'' CHR ''Z'']"] unfolding upper_c_def fun_upper .
  show ?thesis
    unfolding 2 cap_word_at_def
    by (simp add: 1 first_of_Nil split: option.split prod.split del: rmatch.simps)
qed


lemma upper_first:
  "first_of (rmatch False upper_c (b, s)) =
     (case one_of is_upper s of
        None \<Rightarrow> None
      | Some (u, rest) \<Rightarrow> Some (rev u @ b, rest))"
  by (cases s) (simp_all add: upper_c_def one_of_def first_of_def cls_upper)

lemma third_first:
  "first_of (rmatch False (Seq ws_run (Seq upper_c (Plus lower_c))) (b, s)) =
     (case run_of is_ws s of
        None \<Rightarrow> None
      | Some (s2, r4) \<Rightarrow>
          (case cap_word_at r4 of
             None \<Rightarrow> None
           | Some (w3, r5) \<Rightarrow> Some (rev w3 @ rev s2 @ b, r5)))"
proof -
  have "rmatch False (Seq ws_run (Seq upper_c (Plus lower_c))) (b, s) =
     (case run_of is_ws s of
        None \<Rightarrow> []
      | Some (w, rest) \<Rightarrow> rmatch False (Seq upper_c (Plus lower_c)) (rev w @ b, rest))"
    by (rule ws_then) (rule upper_fails, rule ws_not_upper)
  then show ?thesis
    by (simp add: cap_first first_of_Nil split: option.split prod.split del: rmatch.simps)
qed

lemma cap_opt_first:
  "first_of (rmatch False (Seq upper_c (Seq (Plus lower_c) (Opt r))) (b, s)) =
     (case cap_word_at s of
        None \<Rightarrow> None
      | Some (w, rest) \<Rightarrow>
          Some (case first_of (rmatch False r (rev w @ b, rest)) of
                  None \<Rightarrow> (rev w @ b, rest)
                | Some y \<Rightarrow> y))"
proof -
  have 1: "first_of (rmatch False (Seq (Plus lower_c) (Opt r)) (b', s')) =
     (case run_of is_lower s' of
        None \<Rightarrow> None
      | Some (w, rest) \<Rightarrow> first_of (rmatch False (Opt r) (rev w @ b', rest)))" for b' s'
    using plus_opt_first [of False "[Range CHR ''a'' CHR ''z'']" r b' s']
    by (simp only: lower_c_def fun_lower)
  have 2: "rmatch False (Seq upper_c (Seq (Plus lower_c) (Opt r))) (b, s) =
     (case one_of is_upper s of
        None \<Rightarrow> []
      | Some (w, rest) \<Rightarrow> rmatch False (Seq (Plus lower_c) (Opt r)) (rev w @ b, rest))"
    using cls_then [of False "[Range CHR ''A'' CHR ''Z'']"] unfolding upper_c_def fun_upper .
  show ?thesis
    unfolding 2 cap_word_at_def
    by (simp add: 1 opt_first first_of_Nil split: option.split prod.split del: rmatch.simps)
qed

lemma long_first:
  "map_option (\<lambda>st. rev (fst st))
     (first_of (rmatch False
        (Seq upper_c (Seq (Plus lower_c) (Seq ws_run (Seq upper_c (Seq (Plus lower_c)
           (Opt (Seq ws_run (Seq upper_c (Plus lower_c)))))))))
        ([], c)))
   = long_name c"
proof -
  let ?x = "Seq ws_run (Seq upper_c (Plus lower_c))"
  let ?r3 = "Seq upper_c (Seq (Plus lower_c) (Opt ?x))"
  have a: "rmatch False (Seq upper_c (Seq (Plus lower_c) (Seq ws_run ?r3))) (b, s) =
     (case cap_word_at s of
        None \<Rightarrow> []
      | Some (w, rest) \<Rightarrow> rmatch False (Seq ws_run ?r3) (rev w @ b, rest))" for b s
    by (rule cap_then) (rule ws_fails, rule lower_not_ws)
  have b: "rmatch False (Seq ws_run ?r3) (b, s) =
     (case run_of is_ws s of
        None \<Rightarrow> []
      | Some (w, rest) \<Rightarrow> rmatch False ?r3 (rev w @ b, rest))" for b s
    by (rule ws_then) (rule upper_fails, rule ws_not_upper)
  show ?thesis
    unfolding a b long_name_def third_word_def
    by (simp add: cap_opt_first third_first first_of_Nil split: option.split prod.split
        del: rmatch.simps)
qed

lemma short_first:
  "map_option (\<lambda>st. rev (fst st))
     (first_of (rmatch False (Seq upper_c (Seq (Plus lower_c) (Seq ws_run upper_c))) ([], c)))
   = short_name c"
proof -
  have a: "rmatch False (Seq upper_c (Seq (Plus lower_c) (Seq ws_run upper_c))) (b, s) =
     (case cap_word_at s of
        None \<Rightarrow> []
      | Some (w, rest) \<Rightarrow> rmatch False (Seq ws_run upper_c) (rev w @ b, rest))" for b s
    by (rule cap_then) (rule ws_fails, rule lower_not_ws)
  have b: "rmatch False (Seq ws_run upper_c) (b, s) =
     (case run_of is_ws s of
        None \<Rightarrow> []
      | Some (w, rest) \<Rightarrow> rmatch False upper_c (rev w @ b, rest))" for b s
    by (rule ws_then) (rule upper_alone_fails, rule ws_not_upper)
  show ?thesis
    unfolding a b short_name_def
    by (simp add: upper_first first_of_Nil split: option.split prod.split del: rmatch.simps)
qed

lemma match_long: "match_first False (hd namePatterns) c = long_name c"
  unfolding namePatterns_unfolded by (simp only: list.sel match_first_anchored long_first)

lemma match_short: "match_first False (last namePatterns) c = short_name c"
proof -
  have "last namePatterns = Seq Bol (Seq upper_c (Seq (Plus lower_c) (Seq ws_run upper_c)))"
    unfolding namePatterns_unfolded by simp
  then show ?thesis by (simp only: match_first_anchored short_first)
qed

lemma name_match_trim:
  "p \<in> set namePatterns \<Longrightarrow> match_first False p c = Some m \<Longrightarrow> trim m = m"
proof -
  assume "p \<in> set namePatterns" and "match_first False p c = Some m"
  from name_pattern_shape [OF this] have "m \<noteq> []" "is_upper (hd m)" "is_alpha (last m)"
    by simp_all
  then show "trim m = m"
    using alpha_not_ws by (intro trim_id) (auto simp: is_alpha_def)
qed

lemma name_loop_exact: "name_loop namePatterns c = name_at_start c"
proof -
  have two: "namePatterns = [hd namePatterns, last namePatterns]"
    unfolding namePatterns_unfolded by simp
  have mem: "hd namePatterns \<in> set namePatterns" "last namePatterns \<in> set namePatterns"
    unfolding namePatterns_unfolded by simp_all
  have tl: "trim m = m" if "long_name c = Some m" for m
    using name_match_trim [OF mem(1)] that by (simp add: match_long)
  have ts: "trim m = m" if "short_name c = Some m" for m
    using name_match_trim [OF mem(2)] that by (simp add: match_short)
  have "name_loop [hd namePatterns, last namePatterns] c = name_at_start c"
    by (simp add: match_long match_short name_at_start_def valid_or_empty_def Let_def tl ts
        split: option.split)
  with two show ?thesis by simp
qed

lemma cleanedText_empty: "cleanedText [] = []"
  by (simp add: cleanedText_def replace_all_def ws_run_def Plus_def trim_def)

lemma name_at_start_empty: "name_at_start [] = []"
  by (simp add: name_at_start_def long_name_def short_name_def cap_word_at_def one_of_def
      valid_or_empty_def)

lemma name_exact: "name (extractTextInfoEnhanced text) = name_at_start (cleanedText text)"
proof (cases "text = []")
  case True
  then show ?thesis
    by (simp add: extractTextInfoEnhanced_def info0_def cleanedText_empty name_at_start_empty)
next
  case False
  then show ?thesis
    by (simp add: extractTextInfoEnhanced_def Let_def name_loop_exact)
qed


lemma first_of_None: "first_of xs = None \<Longrightarrow> xs = []"
  by (cases xs) (simp_all add: first_of_def)

lemma first_of_Some: "first_of xs = Some x \<Longrightarrow> \<exists>rest. xs = x # rest"
  by (cases xs) (simp_all add: first_of_def)

lemma ws_run_first:
  "first_of (rmatch False ws_run (b, s)) =
     (case run_of is_ws s of
        None \<Rightarrow> None
      | Some (w, rest) \<Rightarrow> Some (rev w @ b, rest))"
  using plus_first [of False "[Space]" b s] by (simp only: ws_run_def fun_space)

lemma replace_ws_collapse: "replace_from False ws_run '' '' b s = collapse_ws s"
proof (induction "length s" arbitrary: b s rule: less_induct)
  case less
  show ?case
  proof (cases s)
    case Nil
    have "first_of (rmatch False ws_run (b, [])) = None"
      by (simp add: ws_run_first run_of_def)
    then have "rmatch False ws_run (b, []) = []" by (rule first_of_None)
    then have "replace_from False ws_run '' '' b [] = collapse_ws []"
      by (simp del: rmatch.simps)
    then show ?thesis unfolding Nil .
  next
    case (Cons c cs)
    show ?thesis
    proof (cases "is_ws c")
      case True
      have "first_of (rmatch False ws_run (b, c # cs))
              = Some (rev (c # takeWhile is_ws cs) @ b, dropWhile is_ws cs)"
        using True by (simp add: ws_run_first run_of_def)
      from first_of_Some [OF this] obtain rest where r: "rmatch False ws_run (b, c # cs)
              = (rev (c # takeWhile is_ws cs) @ b, dropWhile is_ws cs) # rest" ..
      have sh: "length (dropWhile is_ws cs) < length s"
        using Cons by (simp add: le_imp_less_Suc length_dropWhile_le)
      have "replace_from False ws_run '' '' b (c # cs)
              = '' '' @ replace_from False ws_run '' '' (rev (c # takeWhile is_ws cs) @ b) (dropWhile is_ws cs)"
        using r sh Cons by (simp del: rmatch.simps)
      also have "\<dots> = '' '' @ collapse_ws (dropWhile is_ws cs)"
        using less [OF sh] by simp
      also have "\<dots> = collapse_ws (c # cs)"
        using True by simp
      finally show ?thesis unfolding Cons .
    next
      case False
      have "first_of (rmatch False ws_run (b, c # cs)) = None"
        using False by (simp add: ws_run_first run_of_def)
      then have "rmatch False ws_run (b, c # cs) = []" by (rule first_of_None)
      then have "replace_from False ws_run '' '' b (c # cs)
                   = c # replace_from False ws_run '' '' (c # b) cs"
        by (simp del: rmatch.simps)
      also have "\<dots> = c # collapse_ws cs"
        using less [of cs "c # b"] Cons by simp
      also have "\<dots> = collapse_ws (c # cs)"
        using False by simp
      finally show ?thesis unfolding Cons .
    qed
  qed
qed

lemma cleanedText_collapse: "cleanedText text = trim (collapse_ws text)"
  by (simp add: cleanedText_def replace_all_def replace_ws_collapse)


lemma name_at_start_samples:
  "name_at_start ''John Smith Acme Ltd'' = ''John Smith Acme''"
  "name_at_start ''Project Manager Acme'' = ''Project M''"
  "name_at_start ''ACME John Smith'' = []"
  by code_simp+

text \<open>
  Claim C8, amended. The name is not read line by line. The text is cleaned first: every
  run of white space, line breaks included, becomes one space, and the ends are
  trimmed. The name field then equals the prefix of the cleaned text made of two
  capitalised words with white space between them, and of a third one if the text goes
  on with white space and a capitalised word, provided that this prefix contains none
  of \<open>ltd\<close>, \<open>inc\<close>, \<open>corp\<close>, \<open>analyst\<close>, \<open>manager\<close> and is shorter than fifty characters.
  Failing that, it equals the prefix made of a capitalised word, white space and one
  capital letter, under the same proviso; and it is empty when neither prefix exists or
  passes.
\<close>

theorem name_from_start_of_text:
  "name (extractTextInfoEnhanced text) = name_at_start (cleanedText text)
   \<and> cleanedText text = trim (collapse_ws text)"
  using name_exact cleanedText_collapse by blast

theorem name_from_start_of_text_witness:
  "name (extractTextInfoEnhanced split_name_text) = ''John Smith''
   \<and> name_at_start ''John Smith'' = ''John Smith''
   \<and> trim (collapse_ws split_name_text) = ''John Smith''"
proof -
  have n: "name (extractTextInfoEnhanced split_name_text) = name_at_start (cleanedText split_name_text)"
    and c: "cleanedText split_name_text = trim (collapse_ws split_name_text)"
    using name_from_start_of_text [of split_name_text] by simp_all
  have "name_at_start ''John Smith'' = ''John Smith''"
    using n unfolding name_split_name_text cleanedText_split_name_text by simp
  moreover have "trim (collapse_ws split_name_text) = ''John Smith''"
    using c unfolding cleanedText_split_name_text by simp
  ultimately show ?thesis using name_split_name_text by simp
qed

end
